theory Spec2Isabelle
  imports Complex_Main "HOL-Library.Monad_Syntax" "HOL-Library.Multiset"
begin

section \<open>Gaussian process regression (gaussian\_process.py)\<close>

text \<open>
  The module builds a TensorFlow graph in \<open>GaussianProcess.__init__\<close>, trains the kernel
  hyperparameters by minibatch gradient descent in \<open>fit\<close> and evaluates the posterior in
  \<open>predict\<close>. Tensors are modelled by their values: a scalar is a real number, a vector a
  list, a matrix a list of rows. A matrix without rows stands for every shape \<open>(0, c)\<close>,
  and no list stands for a shape \<open>(r, 0)\<close> read as \<open>(0, r)\<close> after transposition: on an empty
  training set the model is not the program, and the statements below take \<open>N > 0\<close>.
  Arithmetic is exact (real numbers); \<open>float32\<close> rounding, \<open>NaN\<close> and infinities are outside
  the model. A call that raises is the value \<open>None\<close>.
\<close>

type_synonym vec = "real list"
type_synonym mat = "real list list"

subsection \<open>Determinant and inverse over exact arithmetic\<close>

text \<open>
  \<open>tf.matrix_determinant\<close> and \<open>tf.matrix_inverse\<close> are library primitives. Their exact
  values are given by the Laplace expansion along the first column and by the adjugate
  divided by the determinant.
\<close>

definition skip :: "nat \<Rightarrow> nat \<Rightarrow> nat" where
  "skip i r = (if r < i then r else Suc r)"

fun detf :: "nat \<Rightarrow> (nat \<Rightarrow> nat \<Rightarrow> real) \<Rightarrow> real" where
  "detf 0 A = 1"
| "detf (Suc n) A = (\<Sum>i<Suc n. (- 1) ^ i * A i 0 * detf n (\<lambda>r c. A (skip i r) (Suc c)))"

definition setrow :: "nat \<Rightarrow> (nat \<Rightarrow> real) \<Rightarrow> (nat \<Rightarrow> nat \<Rightarrow> real) \<Rightarrow> nat \<Rightarrow> nat \<Rightarrow> real" where
  "setrow k v A = (\<lambda>r c. if r = k then v c else A r c)"

definition unitv :: "nat \<Rightarrow> nat \<Rightarrow> real" where
  "unitv j = (\<lambda>c. if c = j then 1 else 0)"

definition cofactor :: "nat \<Rightarrow> (nat \<Rightarrow> nat \<Rightarrow> real) \<Rightarrow> nat \<Rightarrow> nat \<Rightarrow> real" where
  "cofactor n A k j = detf n (setrow k (unitv j) A)"

definition of_mat :: "mat \<Rightarrow> nat \<Rightarrow> nat \<Rightarrow> real" where
  "of_mat A = (\<lambda>i j. A ! i ! j)"

definition is_square :: "mat \<Rightarrow> bool" where
  "is_square A \<longleftrightarrow> list_all (\<lambda>r. length r = length A) A"

definition has_shape :: "nat \<Rightarrow> nat \<Rightarrow> mat \<Rightarrow> bool" where
  "has_shape r c A \<longleftrightarrow> length A = r \<and> list_all (\<lambda>row. length row = c) A"

definition tf_matrix_determinant :: "mat \<Rightarrow> real option" where
  "tf_matrix_determinant A =
     (if is_square A then Some (detf (length A) (of_mat A)) else None)"

text \<open>
  TensorFlow leaves the result of inverting a non-invertible matrix open (an exception or
  a meaningless result); the model has no value there.
\<close>

definition tf_matrix_inverse :: "mat \<Rightarrow> mat option" where
  "tf_matrix_inverse A =
     (let n = length A; d = detf n (of_mat A)
      in if is_square A \<and> d \<noteq> 0
         then Some (map (\<lambda>i. map (\<lambda>j. cofactor n (of_mat A) j i / d) [0..<n]) [0..<n])
         else None)"

subsection \<open>Tensor operations used by the module\<close>

definition ncols :: "mat \<Rightarrow> nat" where
  "ncols A = (case A of [] \<Rightarrow> 0 | r # _ \<Rightarrow> length r)"

definition tf_square :: "real \<Rightarrow> real" where
  "tf_square x = x * x"

definition tf_ones :: "nat \<Rightarrow> vec" where
  "tf_ones n = replicate n 1"

definition tf_diag :: "vec \<Rightarrow> mat" where
  "tf_diag d = map (\<lambda>i. map (\<lambda>j. if i = j then d ! i else 0) [0..<length d]) [0..<length d]"

definition tf_scale :: "real \<Rightarrow> mat \<Rightarrow> mat" where
  \<comment> \<open>scalar \<open>*\<close> matrix, the scalar broadcast over every entry\<close>
  "tf_scale s A = map (map (\<lambda>a. s * a)) A"

definition tf_add :: "mat \<Rightarrow> mat \<Rightarrow> mat option" where
  \<comment> \<open>matrix \<open>+\<close> matrix of one shape\<close>
  "tf_add A B =
     (if map length A = map length B then Some (map2 (map2 (+)) A B) else None)"

definition tf_add_scalar :: "mat \<Rightarrow> real \<Rightarrow> mat" where
  \<comment> \<open>matrix \<open>+\<close> scalar, the scalar broadcast over every entry\<close>
  "tf_add_scalar A s = map (map (\<lambda>a. a + s)) A"

definition tf_transpose :: "mat \<Rightarrow> mat" where
  "tf_transpose A = map (\<lambda>j. map (\<lambda>r. r ! j) A) [0..<ncols A]"

definition tf_matmul :: "mat \<Rightarrow> mat \<Rightarrow> mat option" where
  "tf_matmul A B =
     (if list_all (\<lambda>r. length r = length B) A \<and> list_all (\<lambda>r. length r = ncols B) B
      then Some (map (\<lambda>r. map (\<lambda>j. \<Sum>k<length B. r ! k * B ! k ! j) [0..<ncols B]) A)
      else None)"

definition tf_mul :: "mat \<Rightarrow> mat \<Rightarrow> mat option" where
  \<comment> \<open>elementwise product of two matrices of one shape\<close>
  "tf_mul A B =
     (if map length A = map length B then Some (map2 (map2 (*)) A B) else None)"

definition tf_reduce_sum1 :: "mat \<Rightarrow> vec" where
  \<comment> \<open>\<open>tf.reduce_sum(_, 1)\<close>: the sum of every row\<close>
  "tf_reduce_sum1 A = map sum_list A"

definition tf_sub_from_scalar :: "real \<Rightarrow> vec \<Rightarrow> vec" where
  \<comment> \<open>scalar \<open>-\<close> vector, the scalar broadcast\<close>
  "tf_sub_from_scalar s v = map (\<lambda>x. s - x) v"

definition tf_reshape_col :: "vec \<Rightarrow> mat" where
  \<comment> \<open>\<open>tf.reshape(_, [-1, 1])\<close> of a vector\<close>
  "tf_reshape_col v = map (\<lambda>x. [x]) v"

subsection \<open>Python and NumPy operations used by \<open>fit\<close>\<close>

definition xrange :: "int \<Rightarrow> int list" where
  "xrange n = map int [0..<nat n]"

definition slice_bound :: "int \<Rightarrow> nat \<Rightarrow> nat" where
  \<comment> \<open>a slice bound: negative bounds count from the end, every bound is clipped\<close>
  "slice_bound i n = (if i < 0 then nat (max 0 (i + int n)) else min (nat i) n)"

definition py_slice :: "int \<Rightarrow> int \<Rightarrow> 'a list \<Rightarrow> 'a list" where
  "py_slice lo hi xs =
     (let a = slice_bound lo (length xs); b = slice_bound hi (length xs)
      in take (b - a) (drop a xs))"

definition np_take :: "'a list \<Rightarrow> nat list \<Rightarrow> 'a list option" where
  \<comment> \<open>\<open>A[idx]\<close> for an index array: IndexError out of range\<close>
  "np_take A idx = (if list_all (\<lambda>i. i < length A) idx then Some (map ((!) A) idx) else None)"

subsection \<open>Variables, kernel and optimizer\<close>

text \<open>The three TensorFlow variables of the graph and their values in the session.\<close>

datatype tf_variable = LengthScales | Amp | Noise

record tf_vars =
  length_scales :: vec
  amp :: real
  noise :: real

text \<open>
  Modelled from the spec: the module \<open>kernels\<close> (class \<open>SquaredExponential\<close>) is not part of
  the sources. A kernel gives the covariance of two input rows from the current length
  scales and amplitude; \<open>covariance(A, B=None)\<close> is the matrix of these values between the
  rows of \<open>A\<close> and the rows of \<open>B\<close>, and of \<open>A\<close> against itself when \<open>B\<close> is omitted. The
  values that the initialisers of its two variables produce are an input of \<open>fit\<close>.
\<close>

type_synonym kernel_fn = "vec \<Rightarrow> real \<Rightarrow> vec \<Rightarrow> vec \<Rightarrow> real"

record kernel_init =
  init_scales :: vec
  init_amp :: real

definition covariance :: "kernel_fn \<Rightarrow> tf_vars \<Rightarrow> mat \<Rightarrow> mat option \<Rightarrow> mat" where
  "covariance kf v A B =
     (let B' = (case B of None \<Rightarrow> A | Some b \<Rightarrow> b)
      in map (\<lambda>a. map (\<lambda>b. kf (length_scales v) (amp v) a b) B') A)"

text \<open>
  The optimizer is a parameter of the model: from the loss as a function of the variables
  and from their current values it proposes new values, or fails. \<open>minimize\<close> with a
  \<open>var_list\<close> assigns the variables of that list only.
\<close>

type_synonym optimizer = "(tf_vars \<Rightarrow> mat option) \<Rightarrow> tf_vars \<Rightarrow> tf_vars option"

definition minimize :: "optimizer \<Rightarrow> tf_variable list \<Rightarrow> (tf_vars \<Rightarrow> mat option) \<Rightarrow> tf_vars \<Rightarrow> tf_vars option" where
  "minimize opt vl loss v =
     (case opt loss v of
        None \<Rightarrow> None
      | Some v' \<Rightarrow> Some
          \<lparr>length_scales = (if LengthScales \<in> set vl then length_scales v' else length_scales v),
           amp = (if Amp \<in> set vl then amp v' else amp v),
           noise = (if Noise \<in> set vl then noise v' else noise v)\<rparr>)"

subsection \<open>The model object\<close>

record gp =
  n_dim :: nat
  kernel :: kernel_fn
  noise_init :: real
  n_epochs :: int
  batch_size :: int
  train_noise :: bool
  optimizer :: optimizer
  verbose :: int
  var_list :: "tf_variable list"
  sess :: "tf_vars option"
  K_invf :: "mat option"
  Xf :: "mat option"
  yf :: "mat option"

text \<open>
  \<open>__init__\<close>: \<open>noise_init\<close> is the initial value of the variable \<open>self.noise\<close>; \<open>var_list\<close>
  is the list handed to \<open>optimizer.minimize\<close>; the session starts with no variable
  initialised and the object has no attribute \<open>K_invf\<close>, \<open>Xf\<close>, \<open>yf\<close> yet.
\<close>

definition GaussianProcess ::
  "nat \<Rightarrow> kernel_fn \<Rightarrow> int \<Rightarrow> int \<Rightarrow> real \<Rightarrow> bool \<Rightarrow> optimizer \<Rightarrow> int \<Rightarrow> gp" where
  "GaussianProcess nd k ne bs nz tn opt vb =
     \<lparr>n_dim = nd, kernel = k, noise_init = nz, n_epochs = ne, batch_size = bs,
      train_noise = tn, optimizer = opt, verbose = vb,
      var_list = [LengthScales] @ (if tn then [Noise] else []),
      sess = None, K_invf = None, Xf = None, yf = None\<rparr>"

text \<open>
  The graph nodes \<open>self.K\<close>, \<open>self.K_inv\<close> and \<open>self.cost\<close>, evaluated under a feed. The
  loss is the program's where the determinant of \<open>K\<close> is positive; for a determinant that
  is zero or negative \<open>tf.log\<close> returns an infinity or \<open>NaN\<close>, which no real number models,
  and the value of \<open>ln\<close> there says nothing about the program.
\<close>

definition gp_K :: "gp \<Rightarrow> tf_vars \<Rightarrow> mat \<Rightarrow> mat option" where
  "gp_K g v X =
     tf_add (covariance (kernel g) v X None)
            (tf_scale (tf_square (noise v)) (tf_diag (tf_ones (length X))))"

definition gp_K_inv :: "gp \<Rightarrow> tf_vars \<Rightarrow> mat \<Rightarrow> mat option" where
  "gp_K_inv g v X = do { K \<leftarrow> gp_K g v X; tf_matrix_inverse K }"

definition gp_cost :: "gp \<Rightarrow> tf_vars \<Rightarrow> mat \<Rightarrow> mat \<Rightarrow> mat option" where
  "gp_cost g v X y = do {
     K \<leftarrow> gp_K g v X;
     Ki \<leftarrow> tf_matrix_inverse K;
     a \<leftarrow> tf_matmul (tf_transpose y) Ki;
     b \<leftarrow> tf_matmul a y;
     d \<leftarrow> tf_matrix_determinant K;
     Some (tf_add_scalar b (ln d))
   }"

text \<open>Feeding the placeholders of shape \<open>[None, n_dim]\<close> and \<open>[None, 1]\<close>.\<close>

definition feed_ok :: "gp \<Rightarrow> mat \<Rightarrow> mat \<Rightarrow> bool" where
  "feed_ok g X y \<longleftrightarrow>
     list_all (\<lambda>r. length r = n_dim g) X \<and> list_all (\<lambda>r. length r = 1) y"

definition run_train :: "gp \<Rightarrow> tf_vars \<Rightarrow> mat \<Rightarrow> mat \<Rightarrow> tf_vars option" where
  \<comment> \<open>\<open>sess.run(self.train, feed_dict={self.X: X, self.y: y})\<close>\<close>
  "run_train g v X y =
     (if feed_ok g X y
      then minimize (optimizer g) (var_list g) (\<lambda>v'. gp_cost g v' X y) v
      else None)"

definition run_K_inv :: "gp \<Rightarrow> tf_vars \<Rightarrow> mat \<Rightarrow> mat \<Rightarrow> mat option" where
  \<comment> \<open>\<open>sess.run(self.K_inv, feed_dict={self.X: X, self.y: y})\<close>\<close>
  "run_K_inv g v X y = (if feed_ok g X y then gp_K_inv g v X else None)"

subsection \<open>\<open>fit\<close>\<close>

text \<open>
  The state of the two loops: the session's variables, the local arrays \<open>X\<close> and \<open>y\<close>, and
  a record of what each epoch did: the shuffled arrays and the minibatches fed to the
  training operation (kept to state properties of the loops; the program does not store
  it).
\<close>

type_synonym epoch_log = "mat \<times> mat \<times> (mat \<times> mat) list"

record fit_state =
  vars :: tf_vars
  cur_X :: mat
  cur_y :: mat
  epochs :: "epoch_log list"

fun batch_loop ::
  "gp \<Rightarrow> mat \<Rightarrow> mat \<Rightarrow> int list \<Rightarrow> tf_vars \<times> (mat \<times> mat) list \<Rightarrow> (tf_vars \<times> (mat \<times> mat) list) option" where
  "batch_loop g X y [] st = Some st"
| "batch_loop g X y (j # js) (v, acc) =
     (let mini_X = py_slice (j * batch_size g) ((j + 1) * batch_size g) X;
          mini_y = py_slice (j * batch_size g) ((j + 1) * batch_size g) y
      in case run_train g v mini_X mini_y of
           None \<Rightarrow> None
         | Some v' \<Rightarrow> batch_loop g X y js (v', acc @ [(mini_X, mini_y)]))"

text \<open>
  \<open>rnd i\<close> is the array that \<open>np.random.permutation(n_samples)\<close> returns in epoch \<open>i\<close>.
\<close>

fun epoch_loop ::
  "gp \<Rightarrow> (nat \<Rightarrow> nat list) \<Rightarrow> int \<Rightarrow> int list \<Rightarrow> fit_state \<Rightarrow> fit_state option" where
  "epoch_loop g rnd n_batches [] st = Some st"
| "epoch_loop g rnd n_batches (i # is) st =
     (let shuffle = rnd (nat i)
      in case np_take (cur_X st) shuffle of
           None \<Rightarrow> None
         | Some X' \<Rightarrow>
             (case np_take (cur_y st) shuffle of
                None \<Rightarrow> None
              | Some y' \<Rightarrow>
                  (case batch_loop g X' y' (xrange n_batches) (vars st, []) of
                     None \<Rightarrow> None
                   | Some (v', acc) \<Rightarrow>
                       epoch_loop g rnd n_batches is
                         \<lparr>vars = v', cur_X = X', cur_y = y',
                          epochs = epochs st @ [(X', y', acc)]\<rparr>)))"

definition initialize_all_variables :: "gp \<Rightarrow> kernel_init \<Rightarrow> tf_vars" where
  "initialize_all_variables g ki =
     \<lparr>length_scales = init_scales ki, amp = init_amp ki, noise = noise_init g\<rparr>"

definition fit_loops :: "gp \<Rightarrow> (nat \<Rightarrow> nat list) \<Rightarrow> kernel_init \<Rightarrow> mat \<Rightarrow> mat \<Rightarrow> fit_state option" where
  "fit_loops g rnd ki X y =
     (let v0 = initialize_all_variables g ki;
          n_samples = int (length X)
      in if batch_size g = 0 then None
         else let n_batches = n_samples div batch_size g
              in epoch_loop g rnd n_batches (xrange (n_epochs g))
                   \<lparr>vars = v0, cur_X = X, cur_y = y, epochs = []\<rparr>)"

definition fit :: "gp \<Rightarrow> (nat \<Rightarrow> nat list) \<Rightarrow> kernel_init \<Rightarrow> mat \<Rightarrow> mat \<Rightarrow> gp option" where
  "fit g rnd ki X y =
     (case fit_loops g rnd ki X y of
        None \<Rightarrow> None
      | Some st \<Rightarrow>
          (case run_K_inv g (vars st) (cur_X st) (cur_y st) of
             None \<Rightarrow> None
           | Some Ki \<Rightarrow>
               Some (g\<lparr>sess := Some (vars st), K_invf := Some Ki,
                       Xf := Some (cur_X st), yf := Some (cur_y st)\<rparr>)))"

subsection \<open>\<open>predict\<close>\<close>

text \<open>
  \<open>predict\<close> returns two graph nodes; the model gives their values under the variables
  of the session. \<open>K_star\<close> stands for the local \<open>K_\<close> of the source. Before the first \<open>fit\<close> the attributes \<open>Xf\<close>, \<open>K_invf\<close>, \<open>yf\<close> do not
  exist and the call raises.
\<close>

definition predict :: "gp \<Rightarrow> mat \<Rightarrow> (mat \<times> mat) option" where
  "predict g X = do {
     Xt \<leftarrow> Xf g;
     Ki \<leftarrow> K_invf g;
     yt \<leftarrow> yf g;
     v \<leftarrow> sess g;
     let K_star = covariance (kernel g) v X (Some Xt);
     K_K_invf \<leftarrow> tf_matmul K_star Ki;
     y_pred \<leftarrow> tf_matmul K_K_invf yt;
     prod \<leftarrow> tf_mul K_K_invf K_star;
     let var = tf_reshape_col (tf_sub_from_scalar (tf_square (amp v)) (tf_reduce_sum1 prod));
     Some (y_pred, var)
   }"

subsection \<open>Auxiliary notions for the statements\<close>

text \<open>The array that the epochs \<open>is\<close> leave, each indexing it by that epoch's permutation.\<close>

fun shuffled :: "(nat \<Rightarrow> nat list) \<Rightarrow> int list \<Rightarrow> 'a list \<Rightarrow> 'a list" where
  "shuffled rnd [] A = A"
| "shuffled rnd (i # is) A = shuffled rnd is (map ((!) A) (rnd (nat i)))"


text \<open>
  A symmetric positive semidefinite covariance function: every finite quadratic form of
  its values is non-negative.
\<close>

definition psd_kernel :: "(vec \<Rightarrow> vec \<Rightarrow> real) \<Rightarrow> bool" where
  "psd_kernel k \<longleftrightarrow>
     (\<forall>a b. k a b = k b a) \<and>
     (\<forall>(n::nat) (p::nat \<Rightarrow> vec) (c::nat \<Rightarrow> real). 0 \<le> (\<Sum>i<n. \<Sum>j<n. c i * c j * k (p i) (p j)))"

text \<open>The matrix \<open>A\<close> with entry \<open>(i, j)\<close> replaced by \<open>t\<close>.\<close>

definition set_entry :: "mat \<Rightarrow> nat \<Rightarrow> nat \<Rightarrow> real \<Rightarrow> mat" where
  "set_entry A i j t = A[i := (A ! i)[j := t]]"

text \<open>
  A sequence of optimizer steps, one for each minibatch of a list in order: each step
  minimises the loss built from that minibatch's rows over the variables of \<open>var_list\<close>.
\<close>

fun opt_steps :: "gp \<Rightarrow> (mat \<times> mat) list \<Rightarrow> tf_vars \<Rightarrow> tf_vars option" where
  "opt_steps g [] v = Some v"
| "opt_steps g ((mini_X, mini_y) # bs) v =
     (case minimize (optimizer g) (var_list g) (\<lambda>v'. gp_cost g v' mini_X mini_y) v of
        None \<Rightarrow> None
      | Some v' \<Rightarrow> opt_steps g bs v')"

text \<open>A sequence of calls of \<open>fit\<close> on one object, each with its random draws and data.\<close>

fun fit_seq :: "gp \<Rightarrow> ((nat \<Rightarrow> nat list) \<times> kernel_init \<times> mat \<times> mat) list \<Rightarrow> gp option" where
  "fit_seq g [] = Some g"
| "fit_seq g ((rnd, ki, X, y) # cs) =
     (case fit g rnd ki X y of None \<Rightarrow> None | Some g' \<Rightarrow> fit_seq g' cs)"

subsection \<open>The gradient registered for \<open>MatrixDeterminant\<close>\<close>

text \<open>
  \<open>_MatrixDeterminant(op, grad)\<close>: \<open>op.inputs[0]\<close> is the matrix \<open>A\<close>, \<open>op.outputs[0]\<close> its
  determinant, \<open>grad\<close> the scalar gradient that flows into the output.
\<close>

definition MatrixDeterminant_grad :: "mat \<Rightarrow> real \<Rightarrow> mat option" where
  "MatrixDeterminant_grad A grad = do {
     out \<leftarrow> tf_matrix_determinant A;
     Ai \<leftarrow> tf_matrix_inverse A;
     Some (tf_scale (grad * out) (tf_transpose Ai))
   }"

subsection \<open>A small concrete model for the examples\<close>

text \<open>
  A kernel with the constant covariance \<open>amp\<^sup>2\<close>, an optimizer that proposes a change of
  every variable, and the initial values of the kernel's variables.
\<close>

definition ex_kernel :: kernel_fn where
  "ex_kernel = (\<lambda>ls a x y. a * a)"

definition ex_optimizer :: optimizer where
  "ex_optimizer = (\<lambda>loss v. Some (v\<lparr>length_scales := map (\<lambda>x. x / 2) (length_scales v),
                                      amp := amp v + 1, noise := noise v + 1\<rparr>))"

definition ex_init :: kernel_init where
  "ex_init = \<lparr>init_scales = [1], init_amp = 1\<rparr>"

definition ex_gp :: gp where
  "ex_gp = GaussianProcess 1 ex_kernel 1 1 1 False ex_optimizer 0"

definition ex_swap :: "nat \<Rightarrow> nat list" where
  "ex_swap = (\<lambda>_. [1, 0])"

definition ex_vars :: tf_vars where
  "ex_vars = \<lparr>length_scales = [1/4], amp = 1, noise = 1\<rparr>"

definition ex_fitted :: gp where
  "ex_fitted = ex_gp\<lparr>sess := Some ex_vars, K_invf := Some [[2/3, -1/3], [-1/3, 2/3]],
                      Xf := Some [[2], [1]], yf := Some [[20], [10]]\<rparr>"

text \<open>
  An optimizer whose step depends on the fed minibatch (it adds to every length scale the
  loss at amplitude \<open>0\<close> and noise \<open>1\<close>, the sum of the squares of the fed \<open>y\<close>), a rotation
  of three rows, and three models: one with \<open>batch_size = 2\<close> and two epochs, one with
  \<open>batch_size = 0\<close>, one with \<open>batch_size = -2\<close>.
\<close>

definition ex_loss_optimizer :: optimizer where
  "ex_loss_optimizer = (\<lambda>loss v.
     case loss (v\<lparr>amp := 0, noise := 1\<rparr>) of
       None \<Rightarrow> None
     | Some c \<Rightarrow> Some (v\<lparr>length_scales := map (\<lambda>x. x + c ! 0 ! 0) (length_scales v),
                           amp := amp v + 1, noise := noise v + 1\<rparr>))"

definition ex_rot :: "nat \<Rightarrow> nat list" where
  "ex_rot = (\<lambda>_. [2, 0, 1])"

definition ex_gp3 :: gp where
  "ex_gp3 = GaussianProcess 1 ex_kernel 2 2 1 False ex_loss_optimizer 0"

definition ex_zero_gp :: gp where
  "ex_zero_gp = GaussianProcess 1 ex_kernel 1 0 1 False ex_optimizer 0"

definition ex_neg_gp :: gp where
  "ex_neg_gp = GaussianProcess 1 ex_kernel 1 (- 2) 1 False ex_optimizer 0"

section \<open>Determinants: linearity in a row, equal rows, expansion along a row\<close>

lemma detf_cong:
  "(\<And>i j. i < n \<Longrightarrow> j < n \<Longrightarrow> A i j = B i j) \<Longrightarrow> detf n A = detf n B"
proof (induction n arbitrary: A B)
  case 0
  show ?case by simp
next
  case (Suc n)
  have "\<And>i. i < Suc n \<Longrightarrow>
      detf n (\<lambda>r c. A (skip i r) (Suc c)) = detf n (\<lambda>r c. B (skip i r) (Suc c))"
    by (rule Suc.IH) (simp add: Suc.prems skip_def)
  moreover have "\<And>i. i < Suc n \<Longrightarrow> A i 0 = B i 0"
    by (simp add: Suc.prems)
  ultimately show ?case by simp
qed

lemma skip_inj: "skip i r = skip i r' \<Longrightarrow> r = r'"
  by (auto simp: skip_def split: if_splits)

lemma skip_neq: "skip i r \<noteq> i"
  by (auto simp: skip_def)

lemma detf_row_linear:
  assumes "k < n"
    and "\<And>j. j < n \<Longrightarrow> A k j = a * B k j + b * C k j"
    and "\<And>i j. i < n \<Longrightarrow> i \<noteq> k \<Longrightarrow> j < n \<Longrightarrow> A i j = B i j"
    and "\<And>i j. i < n \<Longrightarrow> i \<noteq> k \<Longrightarrow> j < n \<Longrightarrow> A i j = C i j"
  shows "detf n A = a * detf n B + b * detf n C"
  using assms
proof (induction n arbitrary: A B C k)
  case 0
  then show ?case by simp
next
  case (Suc n)
  let ?mA = "\<lambda>i. detf n (\<lambda>r c. A (skip i r) (Suc c))"
  let ?mB = "\<lambda>i. detf n (\<lambda>r c. B (skip i r) (Suc c))"
  let ?mC = "\<lambda>i. detf n (\<lambda>r c. C (skip i r) (Suc c))"
  have tm: "(- 1) ^ i * A i 0 * ?mA i
      = a * ((- 1) ^ i * B i 0 * ?mB i) + b * ((- 1) ^ i * C i 0 * ?mC i)"
    if i: "i < Suc n" for i
  proof (cases "i = k")
    case True
    have "?mA k = ?mB k"
      by (rule detf_cong) (simp add: Suc.prems(3) skip_neq skip_def)
    moreover have "?mA k = ?mC k"
      by (rule detf_cong) (simp add: Suc.prems(4) skip_neq skip_def)
    moreover have "A k 0 = a * B k 0 + b * C k 0"
      by (simp add: Suc.prems(2))
    ultimately show ?thesis using True by (simp add: algebra_simps)
  next
    case False
    define k' where "k' = (if k < i then k else k - 1)"
    have k': "k' < n" "skip i k' = k"
      using False i Suc.prems(1) by (auto simp: k'_def skip_def)
    have "?mA i = a * ?mB i + b * ?mC i"
    proof (rule Suc.IH [of k'])
      show "k' < n" by (rule k')
      show "A (skip i k') (Suc j) = a * B (skip i k') (Suc j) + b * C (skip i k') (Suc j)"
        if "j < n" for j using that k' Suc.prems(2) by simp
      show "A (skip i r) (Suc j) = B (skip i r) (Suc j)"
        if "r < n" "r \<noteq> k'" "j < n" for r j
      proof -
        have "skip i r \<noteq> k" using that k' skip_inj by blast
        moreover have "skip i r < Suc n" using that by (simp add: skip_def)
        ultimately show ?thesis using Suc.prems(3) that by simp
      qed
      show "A (skip i r) (Suc j) = C (skip i r) (Suc j)"
        if "r < n" "r \<noteq> k'" "j < n" for r j
      proof -
        have "skip i r \<noteq> k" using that k' skip_inj by blast
        moreover have "skip i r < Suc n" using that by (simp add: skip_def)
        ultimately show ?thesis using Suc.prems(4) that by simp
      qed
    qed
    moreover have "A i 0 = B i 0" "A i 0 = C i 0"
      using False i Suc.prems(3,4) by simp_all
    ultimately show ?thesis by (simp add: algebra_simps)
  qed
  have "detf (Suc n) A = (\<Sum>i<Suc n. (- 1) ^ i * A i 0 * ?mA i)" by simp
  also have "\<dots> = (\<Sum>i<Suc n. a * ((- 1) ^ i * B i 0 * ?mB i) + b * ((- 1) ^ i * C i 0 * ?mC i))"
    by (rule sum.cong) (simp_all add: tm del: sum.lessThan_Suc)
  also have "\<dots> = a * detf (Suc n) B + b * detf (Suc n) C"
    by (simp only: sum.distrib sum_distrib_left detf.simps)
  finally show ?case .
qed


lemma detf_adj_eq_rows:
  assumes "Suc k < n" and "\<And>j. j < n \<Longrightarrow> A k j = A (Suc k) j"
  shows "detf n A = 0"
  using assms
proof (induction n arbitrary: A k)
  case 0
  then show ?case by simp
next
  case (Suc n)
  let ?t = "\<lambda>i. (- 1) ^ i * A i 0 * detf n (\<lambda>r c. A (skip i r) (Suc c))"
  have k: "k < n" using Suc.prems(1) by simp
  have zero: "?t i = 0" if i: "i < Suc n" "i \<noteq> k" "i \<noteq> Suc k" for i
  proof -
    define k' where "k' = (if i < k then k - 1 else k)"
    have a: "Suc k' < n" using i k by (auto simp: k'_def)
    have b: "skip i k' = k" "skip i (Suc k') = Suc k"
      using i by (auto simp: k'_def skip_def)
    have "detf n (\<lambda>r c. A (skip i r) (Suc c)) = 0"
      by (rule Suc.IH [of k']) (simp_all add: a b Suc.prems(2))
    then show ?thesis by simp
  qed
  have same: "detf n (\<lambda>r c. A (skip k r) (Suc c)) = detf n (\<lambda>r c. A (skip (Suc k) r) (Suc c))"
  proof (rule detf_cong)
    fix r c assume "r < n" "c < n"
    then show "A (skip k r) (Suc c) = A (skip (Suc k) r) (Suc c)"
      using Suc.prems(2) [of "Suc c"] by (cases "r = k") (auto simp: skip_def)
  qed
  have pair: "?t k + ?t (Suc k) = 0"
    using same Suc.prems(2) [of 0] by simp
  have "detf (Suc n) A = sum ?t {..<Suc n}" by simp
  also have "\<dots> = ?t k + sum ?t ({..<Suc n} - {k})"
    by (rule sum.remove) (use k in simp_all)
  also have "sum ?t ({..<Suc n} - {k}) = ?t (Suc k) + sum ?t ({..<Suc n} - {k} - {Suc k})"
    by (rule sum.remove) (use Suc.prems(1) in simp_all)
  also have "sum ?t ({..<Suc n} - {k} - {Suc k}) = 0"
    by (rule sum.neutral) (use zero in auto)
  finally show ?case using pair by simp
qed

lemma detf_swap_adj:
  assumes "Suc k < n"
    and "\<And>j. j < n \<Longrightarrow> B k j = A (Suc k) j"
    and "\<And>j. j < n \<Longrightarrow> B (Suc k) j = A k j"
    and "\<And>i j. i < n \<Longrightarrow> i \<noteq> k \<Longrightarrow> i \<noteq> Suc k \<Longrightarrow> j < n \<Longrightarrow> B i j = A i j"
  shows "detf n B = - detf n A"
proof -
  define u where "u = A k"
  define w where "w = A (Suc k)"
  define M where "M = (\<lambda>x y. setrow k x (setrow (Suc k) y A))"
  define s where "s = (\<lambda>j. u j + w j)"
  have k: "k < n" using assms(1) by simp
  have zero: "detf n (M x x) = 0" for x
    by (rule detf_adj_eq_rows [OF assms(1)]) (simp add: M_def setrow_def)
  have l1: "detf n (M s y) = 1 * detf n (M u y) + 1 * detf n (M w y)" for y
    by (rule detf_row_linear [OF k]) (simp_all add: M_def setrow_def s_def)
  have l2: "detf n (M x s) = 1 * detf n (M x u) + 1 * detf n (M x w)" for x
    by (rule detf_row_linear [OF assms(1)]) (simp_all add: M_def setrow_def s_def)
  have "detf n (M s s) = detf n (M u w) + detf n (M w u)"
    using l1 [of s] l2 [of u] l2 [of w] zero [of u] zero [of w] by simp
  then have sum0: "detf n (M u w) + detf n (M w u) = 0"
    using zero [of s] by simp
  have "detf n A = detf n (M u w)"
    by (rule detf_cong) (simp add: M_def setrow_def u_def w_def)
  moreover have "detf n B = detf n (M w u)"
    by (rule detf_cong) (simp add: M_def setrow_def u_def w_def assms(2,3,4))
  ultimately show ?thesis using sum0 by simp
qed

lemma detf_eq_rows_aux:
  "k < l \<Longrightarrow> l < n \<Longrightarrow> l - k = Suc d \<Longrightarrow> (\<And>j. j < n \<Longrightarrow> A k j = A l j) \<Longrightarrow> detf n A = 0"
proof (induction d arbitrary: A l)
  case 0
  then have "l = Suc k" by simp
  with 0 show ?case by (auto intro: detf_adj_eq_rows [of k])
next
  case (Suc d)
  obtain m where m: "l = Suc m" using Suc.prems(1) by (cases l) auto
  define B where "B = (\<lambda>r c. if r = m then A l c else if r = l then A m c else A r c)"
  have km: "k < m" "m < n" "m - k = Suc d" "Suc m < n" "k \<noteq> l"
    using Suc.prems m by auto
  have "detf n B = - detf n A"
    by (rule detf_swap_adj [OF km(4)]) (simp_all add: B_def m)
  moreover have "detf n B = 0"
  proof (rule Suc.IH [OF km(1,2,3)])
    fix j assume "j < n"
    then show "B k j = B m j" using km Suc.prems(4) by (simp add: B_def)
  qed
  ultimately show ?case by simp
qed

lemma detf_eq_rows:
  assumes "k \<noteq> l" "k < n" "l < n" and "\<And>j. j < n \<Longrightarrow> A k j = A l j"
  shows "detf n A = 0"
proof (cases "k < l")
  case True
  then obtain d where "l - k = Suc d" by (cases "l - k") auto
  with True assms show ?thesis by (blast intro: detf_eq_rows_aux)
next
  case False
  with assms(1) have lk: "l < k" by simp
  then obtain d where "k - l = Suc d" by (cases "k - l") auto
  with lk assms show ?thesis by (auto intro: detf_eq_rows_aux [of l k n d A])
qed

lemma detf_zero_row:
  assumes "k < n" and "\<And>j. j < n \<Longrightarrow> A k j = 0"
  shows "detf n A = 0"
proof -
  have "detf n A = 0 * detf n A + 0 * detf n A"
    by (rule detf_row_linear [OF assms(1)]) (simp_all add: assms(2))
  then show ?thesis by simp
qed

lemma detf_row_sum:
  assumes "k < n"
  shows "detf n (setrow k (\<lambda>j. \<Sum>m<(p::nat). c m * V m j) A) = (\<Sum>m<p. c m * detf n (setrow k (V m) A))"
proof (induction p)
  case 0
  show ?case by (simp add: detf_zero_row [OF assms] setrow_def)
next
  case (Suc p)
  have "detf n (setrow k (\<lambda>j. \<Sum>m<Suc p. c m * V m j) A)
      = 1 * detf n (setrow k (\<lambda>j. \<Sum>m<p. c m * V m j) A) + c p * detf n (setrow k (V p) A)"
    by (rule detf_row_linear [OF assms]) (simp_all add: setrow_def)
  then show ?case using Suc.IH by simp
qed

lemma unitv_sum: "j < n \<Longrightarrow> (\<Sum>m<n. v m * unitv m j) = v j"
proof -
  assume j: "j < n"
  have "(\<Sum>m<n. v m * unitv m j) = (\<Sum>m<n. if m = j then v m else 0)"
    by (rule sum.cong) (simp_all add: unitv_def)
  also have "\<dots> = v j" using j by (simp add: sum.delta)
  finally show ?thesis .
qed

lemma row_expansion:
  assumes "k < n"
  shows "(\<Sum>j<n. v j * cofactor n A k j) = detf n (setrow k v A)"
proof -
  have "detf n (setrow k v A) = detf n (setrow k (\<lambda>j. \<Sum>m<n. v m * unitv m j) A)"
  proof (rule detf_cong)
    fix i j assume "i < n" "j < n"
    then have "(\<Sum>m<n. v m * unitv m j) = v j"
      by (simp add: unitv_sum)
    then show "setrow k v A i j = setrow k (\<lambda>j. \<Sum>m<n. v m * unitv m j) A i j"
      by (simp add: setrow_def)
  qed
  then show ?thesis by (simp add: detf_row_sum [OF assms] cofactor_def)
qed

lemma cramer:
  assumes "k < n" "l < n"
  shows "(\<Sum>j<n. A l j * cofactor n A k j) = (if l = k then detf n A else 0)"
proof (cases "l = k")
  case True
  have "detf n (setrow k (A k) A) = detf n A"
    by (rule detf_cong) (simp add: setrow_def)
  then show ?thesis using True row_expansion [OF assms(1), of "A k" A] by simp
next
  case False
  have "detf n (setrow k (A l) A) = 0"
    by (rule detf_eq_rows [OF False assms(2,1)]) (simp add: setrow_def)
  then show ?thesis using False row_expansion [OF assms(1), of "A l" A] by simp
qed

section \<open>Variables outside the list of the training operation keep their values\<close>

lemma minimize_amp:
  "minimize opt vl loss v = Some v' \<Longrightarrow> Amp \<notin> set vl \<Longrightarrow> amp v' = amp v"
  by (auto simp: minimize_def split: option.splits)

lemma minimize_noise:
  "minimize opt vl loss v = Some v' \<Longrightarrow> Noise \<notin> set vl \<Longrightarrow> noise v' = noise v"
  by (auto simp: minimize_def split: option.splits)

lemma run_train_amp:
  "run_train g v X y = Some v' \<Longrightarrow> Amp \<notin> set (var_list g) \<Longrightarrow> amp v' = amp v"
  by (auto simp: run_train_def split: if_splits dest: minimize_amp)

lemma run_train_noise:
  "run_train g v X y = Some v' \<Longrightarrow> Noise \<notin> set (var_list g) \<Longrightarrow> noise v' = noise v"
  by (auto simp: run_train_def split: if_splits dest: minimize_noise)

lemma batch_loop_amp:
  "batch_loop g X y js (v, acc) = Some (v', acc') \<Longrightarrow> Amp \<notin> set (var_list g) \<Longrightarrow> amp v' = amp v"
proof (induction js arbitrary: v acc)
  case Nil
  then show ?case by simp
next
  case (Cons j js)
  then show ?case
    by (auto simp: Let_def split: option.splits dest: run_train_amp)
qed

lemma batch_loop_noise:
  "batch_loop g X y js (v, acc) = Some (v', acc') \<Longrightarrow> Noise \<notin> set (var_list g) \<Longrightarrow> noise v' = noise v"
proof (induction js arbitrary: v acc)
  case Nil
  then show ?case by simp
next
  case (Cons j js)
  then show ?case
    by (auto simp: Let_def split: option.splits dest: run_train_noise)
qed

lemma epoch_loop_amp:
  "epoch_loop g rnd nb is st = Some st' \<Longrightarrow> Amp \<notin> set (var_list g) \<Longrightarrow> amp (vars st') = amp (vars st)"
proof (induction "is" arbitrary: st)
  case Nil
  then show ?case by simp
next
  case (Cons i "is")
  then show ?case
    by (fastforce simp: Let_def split: option.splits prod.splits dest: batch_loop_amp)
qed

lemma epoch_loop_noise:
  "epoch_loop g rnd nb is st = Some st' \<Longrightarrow> Noise \<notin> set (var_list g) \<Longrightarrow> noise (vars st') = noise (vars st)"
proof (induction "is" arbitrary: st)
  case Nil
  then show ?case by simp
next
  case (Cons i "is")
  then show ?case
    by (fastforce simp: Let_def split: option.splits prod.splits dest: batch_loop_noise)
qed

lemma fit_loops_amp:
  "fit_loops g rnd ki X y = Some st \<Longrightarrow> Amp \<notin> set (var_list g) \<Longrightarrow> amp (vars st) = init_amp ki"
  by (auto simp: fit_loops_def Let_def initialize_all_variables_def split: if_splits dest: epoch_loop_amp)

lemma fit_loops_noise:
  "fit_loops g rnd ki X y = Some st \<Longrightarrow> Noise \<notin> set (var_list g) \<Longrightarrow> noise (vars st) = noise_init g"
  by (auto simp: fit_loops_def Let_def initialize_all_variables_def split: if_splits dest: epoch_loop_noise)

lemma fit_fields:
  assumes "fit g rnd ki X y = Some g'"
  shows "\<exists>st Ki. fit_loops g rnd ki X y = Some st
      \<and> run_K_inv g (vars st) (cur_X st) (cur_y st) = Some Ki
      \<and> g' = g\<lparr>sess := Some (vars st), K_invf := Some Ki, Xf := Some (cur_X st), yf := Some (cur_y st)\<rparr>"
  using assms by (auto simp: fit_def split: option.splits)


lemma fit_static:
  "fit g rnd ki X y = Some g' \<Longrightarrow>
     var_list g' = var_list g \<and> noise_init g' = noise_init g \<and> train_noise g' = train_noise g"
  by (auto dest!: fit_fields)

lemma fit_sess_amp:
  "fit g rnd ki X y = Some g' \<Longrightarrow> Amp \<notin> set (var_list g) \<Longrightarrow>
     \<exists>v. sess g' = Some v \<and> amp v = init_amp ki"
  by (auto dest!: fit_fields dest: fit_loops_amp)

lemma fit_sess_noise:
  "fit g rnd ki X y = Some g' \<Longrightarrow> Noise \<notin> set (var_list g) \<Longrightarrow>
     \<exists>v. sess g' = Some v \<and> noise v = noise_init g"
  by (auto dest!: fit_fields dest: fit_loops_noise)

lemma fit_seq_static:
  "fit_seq g calls = Some g' \<Longrightarrow> var_list g' = var_list g \<and> noise_init g' = noise_init g"
proof (induction calls arbitrary: g)
  case Nil
  then show ?case by simp
next
  case (Cons c calls)
  obtain rnd ki X y where c: "c = (rnd, ki, X, y)" by (cases c) auto
  from Cons.prems c obtain g1 where g1: "fit g rnd ki X y = Some g1" "fit_seq g1 calls = Some g'"
    by (auto split: option.splits)
  from Cons.IH [OF g1(2)] fit_static [OF g1(1)] show ?case by simp
qed

lemma fit_seq_noise:
  "fit_seq g calls = Some g' \<Longrightarrow> Noise \<notin> set (var_list g) \<Longrightarrow> calls \<noteq> [] \<Longrightarrow>
     \<exists>v. sess g' = Some v \<and> noise v = noise_init g"
proof (induction calls arbitrary: g)
  case Nil
  then show ?case by simp
next
  case (Cons c calls)
  obtain rnd ki X y where c: "c = (rnd, ki, X, y)" by (cases c) auto
  from Cons.prems c obtain g1 where g1: "fit g rnd ki X y = Some g1" "fit_seq g1 calls = Some g'"
    by (auto split: option.splits)
  note st = fit_static [OF g1(1)]
  show ?case
  proof (cases "calls = []")
    case True
    with g1 have "g' = g1" by simp
    with fit_sess_noise [OF g1(1) Cons.prems(2)] show ?thesis by simp
  next
    case False
    from Cons.IH [OF g1(2) _ False] st Cons.prems(2) show ?thesis by simp
  qed
qed

section \<open>What the two loops of \<open>fit\<close> do\<close>

lemma slice_bound_nat: "slice_bound (int k) n = min k n"
  by (simp add: slice_bound_def)

lemma py_slice_batch:
  assumes "0 < bs"
  shows "py_slice (int m * bs) ((int m + 1) * bs) xs = take (nat bs) (drop (m * nat bs) xs)"
proof -
  define b where "b = nat bs"
  have bs: "bs = int b" and b0: "0 < b" using assms by (simp_all add: b_def)
  have e1: "int m * int b = int (m * b)" by simp
  have e2: "(int m + 1) * int b = int ((m + 1) * b)" by (simp add: algebra_simps)
  have lo: "slice_bound (int m * int b) (length xs) = min (m * b) (length xs)"
    unfolding e1 by (rule slice_bound_nat)
  have hi: "slice_bound ((int m + 1) * int b) (length xs) = min ((m + 1) * b) (length xs)"
    unfolding e2 by (rule slice_bound_nat)
  have "take (min ((m + 1) * b) (length xs) - min (m * b) (length xs)) (drop (min (m * b) (length xs)) xs)
      = take b (drop (m * b) xs)"
  proof (cases "m * b < length xs")
    case True
    then have "min ((m + 1) * b) (length xs) - min (m * b) (length xs) = min b (length xs - m * b)"
      by (auto simp: min_def algebra_simps)
    moreover have "take (min b (length xs - m * b)) (drop (m * b) xs) = take b (drop (m * b) xs)"
      by (simp add: min_def)
    ultimately show ?thesis using True by (simp add: min_def)
  next
    case False
    then show ?thesis by simp
  qed
  then show ?thesis
    unfolding py_slice_def Let_def bs lo hi by (simp add: b_def [symmetric])
qed

lemma batch_loop_acc:
  "batch_loop g X y js (v, acc) = Some (v', acc') \<Longrightarrow>
     acc' = acc @ map (\<lambda>j. (py_slice (j * batch_size g) ((j + 1) * batch_size g) X,
                             py_slice (j * batch_size g) ((j + 1) * batch_size g) y)) js"
proof (induction js arbitrary: v acc)
  case Nil
  then show ?case by simp
next
  case (Cons j js)
  let ?mx = "py_slice (j * batch_size g) ((j + 1) * batch_size g) X"
  let ?my = "py_slice (j * batch_size g) ((j + 1) * batch_size g) y"
  from Cons.prems obtain v1 where
    "batch_loop g X y js (v1, acc @ [(?mx, ?my)]) = Some (v', acc')"
    by (auto simp: Let_def split: option.splits)
  from Cons.IH [OF this] show ?case by simp
qed

lemma np_take_Some: "np_take A idx = Some B \<Longrightarrow> B = map ((!) A) idx \<and> (\<forall>i\<in>set idx. i < length A)"
  by (auto simp: np_take_def list_all_iff split: if_splits)

lemma map_upt_shift: "map f [0..<Suc n] = f 0 # map (\<lambda>m. f (Suc m)) [0..<n]"
  by (simp add: map_upt_Suc del: upt_Suc)

lemma epoch_loop_log:
  "epoch_loop g rnd nb is st = Some st' \<Longrightarrow>
     cur_X st' = shuffled rnd is (cur_X st) \<and> cur_y st' = shuffled rnd is (cur_y st) \<and>
     epochs st' = epochs st @
       map (\<lambda>m. (shuffled rnd (take (Suc m) is) (cur_X st),
                 shuffled rnd (take (Suc m) is) (cur_y st),
                 map (\<lambda>j. (py_slice (j * batch_size g) ((j + 1) * batch_size g)
                               (shuffled rnd (take (Suc m) is) (cur_X st)),
                            py_slice (j * batch_size g) ((j + 1) * batch_size g)
                               (shuffled rnd (take (Suc m) is) (cur_y st))))
                     (xrange nb)))
           [0..<length is]"
proof (induction "is" arbitrary: st)
  case Nil
  then show ?case by simp
next
  case (Cons i "is")
  from Cons.prems obtain X' y' v' acc where
    X': "np_take (cur_X st) (rnd (nat i)) = Some X'" and
    y': "np_take (cur_y st) (rnd (nat i)) = Some y'" and
    bl: "batch_loop g X' y' (xrange nb) (vars st, []) = Some (v', acc)" and
    rec: "epoch_loop g rnd nb is
            \<lparr>vars = v', cur_X = X', cur_y = y', epochs = epochs st @ [(X', y', acc)]\<rparr> = Some st'"
    by (auto simp: Let_def split: option.splits prod.splits)
  have eqs: "X' = map ((!) (cur_X st)) (rnd (nat i))" "y' = map ((!) (cur_y st)) (rnd (nat i))"
    using np_take_Some [OF X'] np_take_Some [OF y'] by simp_all
  have acc: "acc = map (\<lambda>j. (py_slice (j * batch_size g) ((j + 1) * batch_size g) X',
                             py_slice (j * batch_size g) ((j + 1) * batch_size g) y')) (xrange nb)"
    using batch_loop_acc [OF bl] by simp
  from Cons.IH [OF rec] show ?case
    by (simp add: eqs acc map_upt_shift del: upt_Suc)
qed

lemma shuffled_snoc: "shuffled rnd (is @ [i]) A = map ((!) (shuffled rnd is A)) (rnd (nat i))"
  by (induction "is" arbitrary: A) simp_all

lemma take_xrange: "m < nat n \<Longrightarrow> take (Suc m) (xrange n) = xrange (int m) @ [int m]"
  by (simp add: xrange_def take_map)

lemma length_shuffled:
  "(\<forall>i\<in>set is. length (rnd (nat i)) = length A) \<Longrightarrow> length (shuffled rnd is A) = length A"
  by (induction "is" arbitrary: A) simp_all

lemma perm_bounds: "mset p = mset [0..<n] \<Longrightarrow> length p = n \<and> (\<forall>i\<in>set p. i < n)"
  by (metis atLeastLessThan_iff length_upt mset_eq_length mset_eq_setD set_upt minus_nat.diff_0)

lemma mset_map_perm:
  assumes "mset p = mset [0..<length A]"
  shows "mset (map ((!) A) p) = mset A"
proof -
  have "mset (map ((!) A) p) = image_mset ((!) A) (mset p)" by simp
  also have "\<dots> = mset (map ((!) A) [0..<length A])" by (simp add: assms)
  also have "\<dots> = mset A" by (simp add: map_nth)
  finally show ?thesis .
qed

lemma zip_map_nth:
  assumes "\<forall>i\<in>set p. i < length X" "length y = length X"
  shows "zip (map ((!) X) p) (map ((!) y) p) = map ((!) (zip X y)) p"
  using assms by (induction p) simp_all

lemma mset_zip_perm:
  assumes "mset p = mset [0..<length X]" "length y = length X"
  shows "mset (zip (map ((!) X) p) (map ((!) y) p)) = mset (zip X y)"
proof -
  have "\<forall>i\<in>set p. i < length X" using perm_bounds [OF assms(1)] by simp
  then have "zip (map ((!) X) p) (map ((!) y) p) = map ((!) (zip X y)) p"
    using assms(2) by (rule zip_map_nth)
  moreover have "mset p = mset [0..<length (zip X y)]" using assms by simp
  ultimately show ?thesis by (simp only: mset_map_perm)
qed

lemma concat_batches:
  "k * b \<le> length xs \<Longrightarrow> concat (map (\<lambda>j. take b (drop (j * b) xs)) [0..<k]) = take (k * b) xs"
proof (induction k)
  case 0
  then show ?case by simp
next
  case (Suc k)
  then have "concat (map (\<lambda>j. take b (drop (j * b) xs)) [0..<k]) = take (k * b) xs" by simp
  moreover have "take (Suc k * b) xs = take (k * b) xs @ take b (drop (k * b) xs)"
    using take_add [of "k * b" b xs] by (simp add: add.commute)
  ultimately show ?case by simp
qed


lemma xrange_Suc: "xrange (int (Suc e)) = xrange (int e) @ [int e]"
  unfolding xrange_def nat_int by simp

lemma xrange_Suc': "xrange (1 + int e) = xrange (int e) @ [int e]"
  using xrange_Suc [of e] by simp

lemma fit_loops_log:
  assumes "fit_loops g rnd ki X y = Some st"
  shows "batch_size g \<noteq> 0"
    and "cur_X st = shuffled rnd (xrange (n_epochs g)) X"
    and "cur_y st = shuffled rnd (xrange (n_epochs g)) y"
    and "length (epochs st) = nat (n_epochs g)"
    and "e < nat (n_epochs g) \<Longrightarrow> epochs st ! e =
           (shuffled rnd (xrange (int (Suc e))) X, shuffled rnd (xrange (int (Suc e))) y,
            map (\<lambda>j. (py_slice (j * batch_size g) ((j + 1) * batch_size g)
                          (shuffled rnd (xrange (int (Suc e))) X),
                       py_slice (j * batch_size g) ((j + 1) * batch_size g)
                          (shuffled rnd (xrange (int (Suc e))) y)))
                (xrange (int (length X) div batch_size g)))"
proof -
  from assms show nz: "batch_size g \<noteq> 0"
    by (auto simp: fit_loops_def Let_def split: if_splits)
  with assms have el: "epoch_loop g rnd (int (length X) div batch_size g) (xrange (n_epochs g))
      \<lparr>vars = initialize_all_variables g ki, cur_X = X, cur_y = y, epochs = []\<rparr> = Some st"
    by (simp add: fit_loops_def Let_def)
  note lg = epoch_loop_log [OF el]
  from lg show "cur_X st = shuffled rnd (xrange (n_epochs g)) X"
    and "cur_y st = shuffled rnd (xrange (n_epochs g)) y" by simp_all
  have len: "length (xrange (n_epochs g)) = nat (n_epochs g)" by (simp add: xrange_def)
  from lg show "length (epochs st) = nat (n_epochs g)" by (simp add: len)
  assume e: "e < nat (n_epochs g)"
  have tk: "take (Suc e) (xrange (n_epochs g)) = xrange (int (Suc e))"
    using take_xrange [OF e] by (simp add: xrange_Suc')
  from lg e show "epochs st ! e =
           (shuffled rnd (xrange (int (Suc e))) X, shuffled rnd (xrange (int (Suc e))) y,
            map (\<lambda>j. (py_slice (j * batch_size g) ((j + 1) * batch_size g)
                          (shuffled rnd (xrange (int (Suc e))) X),
                       py_slice (j * batch_size g) ((j + 1) * batch_size g)
                          (shuffled rnd (xrange (int (Suc e))) y)))
                (xrange (int (length X) div batch_size g)))"
    by (simp add: len tk del: upt_Suc)
qed

lemma shuffled_step:
  "shuffled rnd (xrange (int (Suc e))) A = map ((!) (shuffled rnd (xrange (int e)) A)) (rnd e)"
  by (simp only: xrange_Suc shuffled_snoc nat_int)

lemma shuffled_perm:
  assumes "\<forall>i<n. mset (rnd i) = mset [0..<length X]" and "length y = length X" and "e \<le> n"
  shows "length (shuffled rnd (xrange (int e)) X) = length X
     \<and> length (shuffled rnd (xrange (int e)) y) = length X
     \<and> mset (zip (shuffled rnd (xrange (int e)) X) (shuffled rnd (xrange (int e)) y)) = mset (zip X y)"
  using assms(3)
proof (induction e)
  case 0
  show ?case by (simp add: xrange_def assms(2))
next
  case (Suc e)
  let ?Xp = "shuffled rnd (xrange (int e)) X"
  let ?yp = "shuffled rnd (xrange (int e)) y"
  from Suc have ih: "length ?Xp = length X" "length ?yp = length X"
      "mset (zip ?Xp ?yp) = mset (zip X y)" by simp_all
  from Suc.prems assms(1) have p: "mset (rnd e) = mset [0..<length ?Xp]" by (simp add: ih)
  have "length (rnd e) = length X" using perm_bounds [OF p] ih by simp
  moreover have "mset (zip (map ((!) ?Xp) (rnd e)) (map ((!) ?yp) (rnd e))) = mset (zip ?Xp ?yp)"
    by (rule mset_zip_perm [OF p]) (simp add: ih)
  ultimately show ?case by (simp add: shuffled_step ih del: of_nat_Suc)
qed



section \<open>Shapes and values of the tensor operations\<close>

lemma has_shape_nth: "has_shape r c A \<Longrightarrow> i < r \<Longrightarrow> length (A ! i) = c"
  by (auto simp: has_shape_def list_all_length)

lemma has_shapeI: "length A = r \<Longrightarrow> (\<And>i. i < r \<Longrightarrow> length (A ! i) = c) \<Longrightarrow> has_shape r c A"
  by (auto simp: has_shape_def list_all_length)

lemma ncols_shape: "has_shape r c A \<Longrightarrow> 0 < r \<Longrightarrow> ncols A = c"
  by (cases A) (auto simp: has_shape_def ncols_def)

lemma covariance_Some:
  "covariance kf v A (Some B) = map (\<lambda>a. map (\<lambda>b. kf (length_scales v) (amp v) a b) B) A"
  by (simp add: covariance_def)

lemma covariance_None:
  "covariance kf v A None = covariance kf v A (Some A)"
  by (simp add: covariance_def)

lemma covariance_shape: "has_shape (length A) (length B) (covariance kf v A (Some B))"
  by (simp add: has_shape_def covariance_Some list_all_length)

lemma covariance_nth:
  "i < length A \<Longrightarrow> j < length B \<Longrightarrow>
     covariance kf v A (Some B) ! i ! j = kf (length_scales v) (amp v) (A ! i) (B ! j)"
  by (simp add: covariance_Some)

lemma tf_matmul_Some:
  assumes "has_shape m n A" "has_shape n c B" "0 < n"
  shows "tf_matmul A B = Some (map (\<lambda>r. map (\<lambda>j. \<Sum>k<n. r ! k * B ! k ! j) [0..<c]) A)"
proof -
  have "list_all (\<lambda>r. length r = length B) A" "list_all (\<lambda>r. length r = ncols B) B" "length B = n"
    using assms ncols_shape [OF assms(2,3)] by (simp_all add: has_shape_def)
  then show ?thesis using ncols_shape [OF assms(2,3)] by (simp add: tf_matmul_def)
qed

lemma tf_matmul_shape:
  assumes "has_shape m n A" "has_shape n c B" "0 < n" "tf_matmul A B = Some C"
  shows "has_shape m c C" and "i < m \<Longrightarrow> j < c \<Longrightarrow> C ! i ! j = (\<Sum>k<n. A ! i ! k * B ! k ! j)"
proof -
  have C: "C = map (\<lambda>r. map (\<lambda>j. \<Sum>k<n. r ! k * B ! k ! j) [0..<c]) A"
    using tf_matmul_Some [OF assms(1,2,3)] assms(4) by simp
  have m: "length A = m" using assms(1) by (simp add: has_shape_def)
  show "has_shape m c C" by (simp add: C has_shape_def m list_all_length)
  show "i < m \<Longrightarrow> j < c \<Longrightarrow> C ! i ! j = (\<Sum>k<n. A ! i ! k * B ! k ! j)"
    by (simp add: C m)
qed

lemma tf_mul_Some:
  assumes "has_shape m n A" "has_shape m n B"
  shows "tf_mul A B = Some (map2 (map2 (*)) A B)"
proof -
  have "map length A = map length B"
    using assms by (auto simp: has_shape_def list_all_length intro!: nth_equalityI)
  then show ?thesis by (simp add: tf_mul_def)
qed

lemma sum_list_map2_mult:
  fixes xs ys :: "real list"
  assumes "length xs = n" "length ys = n"
  shows "sum_list (map2 (*) xs ys) = (\<Sum>j<n. xs ! j * ys ! j)"
proof -
  have "sum_list (map2 (*) xs ys) = (\<Sum>j = 0..<length (map2 (*) xs ys). map2 (*) xs ys ! j)"
    by (rule sum_list_sum_nth)
  also have "\<dots> = (\<Sum>j = 0..<n. xs ! j * ys ! j)"
    using assms by (intro sum.cong) simp_all
  finally show ?thesis by (simp add: atLeast0LessThan)
qed

lemma predict_value:
  fixes Xq :: mat
  assumes f: "sess g = Some v" "Xf g = Some Xt" "K_invf g = Some Ki" "yf g = Some yt"
    and sh: "has_shape N N Ki" "has_shape N 1 yt" "length Xt = N" "0 < N"
  defines "Ks \<equiv> covariance (kernel g) v Xq (Some Xt)"
  defines "A \<equiv> map (\<lambda>r. map (\<lambda>j. \<Sum>k<N. r ! k * Ki ! k ! j) [0..<N]) Ks"
  shows "tf_matmul Ks Ki = Some A"
    and "predict g Xq =
      Some (map (\<lambda>r. [\<Sum>k<N. r ! k * yt ! k ! 0]) A,
            map (\<lambda>i. [amp v * amp v - (\<Sum>j<N. A ! i ! j * Ks ! i ! j)]) [0..<length Xq])"
proof -
  have ks: "has_shape (length Xq) N Ks"
    unfolding Ks_def using covariance_shape [of Xq Xt] sh(3) by simp
  show 1: "tf_matmul Ks Ki = Some A"
    unfolding A_def by (rule tf_matmul_Some [OF ks sh(1,4)])
  have a: "has_shape (length Xq) N A"
    by (rule tf_matmul_shape(1) [OF ks sh(1,4) 1])
  have 2: "tf_matmul A yt = Some (map (\<lambda>r. [\<Sum>k<N. r ! k * yt ! k ! 0]) A)"
    using tf_matmul_Some [OF a sh(2,4)] by simp
  have 3: "tf_mul A Ks = Some (map2 (map2 (*)) A Ks)"
    by (rule tf_mul_Some [OF a ks])
  have len: "length A = length Xq" "length Ks = length Xq"
    using a ks by (simp_all add: has_shape_def)
  have 4: "map sum_list (map2 (map2 (*)) A Ks) = map (\<lambda>i. \<Sum>j<N. A ! i ! j * Ks ! i ! j) [0..<length Xq]"
  proof (rule nth_equalityI)
    show "length (map sum_list (map2 (map2 (*)) A Ks)) = length (map (\<lambda>i. \<Sum>j<N. A ! i ! j * Ks ! i ! j) [0..<length Xq])"
      by (simp add: len)
    fix i assume "i < length (map sum_list (map2 (map2 (*)) A Ks))"
    then have i: "i < length Xq" by (simp add: len)
    have "sum_list (map2 (*) (A ! i) (Ks ! i)) = (\<Sum>j<N. A ! i ! j * Ks ! i ! j)"
      by (rule sum_list_map2_mult) (simp_all add: has_shape_nth [OF a i] has_shape_nth [OF ks i])
    then show "map sum_list (map2 (map2 (*)) A Ks) ! i = map (\<lambda>i. \<Sum>j<N. A ! i ! j * Ks ! i ! j) [0..<length Xq] ! i"
      using i by (simp add: len)
  qed
  have 5: "tf_reshape_col (tf_sub_from_scalar (tf_square (amp v)) (tf_reduce_sum1 (map2 (map2 (*)) A Ks)))
      = map (\<lambda>i. [amp v * amp v - (\<Sum>j<N. A ! i ! j * Ks ! i ! j)]) [0..<length Xq]"
    unfolding tf_reduce_sum1_def 4
    by (simp add: tf_sub_from_scalar_def tf_reshape_col_def tf_square_def o_def)
  show "predict g Xq =
      Some (map (\<lambda>r. [\<Sum>k<N. r ! k * yt ! k ! 0]) A,
            map (\<lambda>i. [amp v * amp v - (\<Sum>j<N. A ! i ! j * Ks ! i ! j)]) [0..<length Xq])"
    unfolding predict_def f
    by (simp add: Ks_def [symmetric] 1 2 3 5)
qed


lemma is_square_shape: "is_square A \<longleftrightarrow> has_shape (length A) (length A) A"
  by (simp add: is_square_def has_shape_def)

lemma tf_matrix_inverse_Some:
  assumes "tf_matrix_inverse A = Some Ai"
  shows "is_square A" and "detf (length A) (of_mat A) \<noteq> 0"
    and "has_shape (length A) (length A) Ai"
    and "i < length A \<Longrightarrow> j < length A \<Longrightarrow>
           Ai ! i ! j = cofactor (length A) (of_mat A) j i / detf (length A) (of_mat A)"
proof -
  from assms show sq: "is_square A" and d: "detf (length A) (of_mat A) \<noteq> 0"
    by (auto simp: tf_matrix_inverse_def Let_def split: if_splits)
  from assms sq d have Ai: "Ai = map (\<lambda>i. map (\<lambda>j. cofactor (length A) (of_mat A) j i
        / detf (length A) (of_mat A)) [0..<length A]) [0..<length A]"
    by (simp add: tf_matrix_inverse_def Let_def)
  show "has_shape (length A) (length A) Ai"
    by (simp add: Ai has_shape_def list_all_length)
  show "i < length A \<Longrightarrow> j < length A \<Longrightarrow>
           Ai ! i ! j = cofactor (length A) (of_mat A) j i / detf (length A) (of_mat A)"
    by (simp add: Ai)
qed

lemma inverse_right:
  assumes "tf_matrix_inverse A = Some Ai" "i < length A" "j < length A"
  shows "(\<Sum>k<length A. A ! i ! k * Ai ! k ! j) = (if i = j then 1 else 0)"
proof -
  let ?n = "length A"
  let ?d = "detf ?n (of_mat A)"
  note inv = tf_matrix_inverse_Some [OF assms(1)]
  have "(\<Sum>k<?n. A ! i ! k * Ai ! k ! j) = (\<Sum>k<?n. of_mat A i k * cofactor ?n (of_mat A) j k / ?d)"
    by (rule sum.cong) (simp_all add: inv(4) assms(3) of_mat_def)
  also have "\<dots> = (\<Sum>k<?n. of_mat A i k * cofactor ?n (of_mat A) j k) / ?d"
    by (simp add: sum_divide_distrib)
  also have "\<dots> = (if i = j then ?d else 0) / ?d"
    by (simp only: cramer [OF assms(3,2)])
  also have "\<dots> = (if i = j then 1 else 0)" using inv(2) by simp
  finally show ?thesis .
qed

lemma tf_diag_ones:
  "tf_diag (tf_ones n) = map (\<lambda>i. map (\<lambda>j. if i = j then 1 else 0) [0..<n]) [0..<n]"
  by (simp add: tf_diag_def tf_ones_def)

lemma gp_K_value:
  "gp_K g v X = Some (map (\<lambda>i. map (\<lambda>j. kernel g (length_scales v) (amp v) (X ! i) (X ! j)
       + noise v * noise v * (if i = j then 1 else 0)) [0..<length X]) [0..<length X])"
proof -
  let ?n = "length X"
  let ?C = "covariance (kernel g) v X None"
  let ?D = "tf_scale (tf_square (noise v)) (tf_diag (tf_ones ?n))"
  have C: "?C = map (\<lambda>i. map (\<lambda>j. kernel g (length_scales v) (amp v) (X ! i) (X ! j)) [0..<?n]) [0..<?n]"
    by (rule nth_equalityI) (auto simp: covariance_def intro!: nth_equalityI)
  have D: "?D = map (\<lambda>i. map (\<lambda>j. noise v * noise v * (if i = j then 1 else 0)) [0..<?n]) [0..<?n]"
    by (simp add: tf_diag_ones tf_scale_def tf_square_def o_def)
  have "map length ?C = map length ?D" unfolding C D by (simp add: o_def)
  then have "tf_add ?C ?D = Some (map2 (map2 (+)) ?C ?D)" by (simp add: tf_add_def)
  also have "map2 (map2 (+)) ?C ?D = map (\<lambda>i. map (\<lambda>j. kernel g (length_scales v) (amp v) (X ! i) (X ! j)
       + noise v * noise v * (if i = j then 1 else 0)) [0..<?n]) [0..<?n]"
    unfolding C D by (rule nth_equalityI) (auto intro!: nth_equalityI)
  finally show ?thesis by (simp add: gp_K_def)
qed

lemma tf_transpose_col:
  assumes "has_shape n 1 y" "0 < n"
  shows "tf_transpose y = [map (\<lambda>r. r ! 0) y]"
  using ncols_shape [OF assms] by (simp add: tf_transpose_def)

lemma gp_cost_value:
  assumes K: "gp_K g v X = Some K" and Ki: "tf_matrix_inverse K = Some Ki"
    and y: "has_shape (length X) 1 y" and n: "0 < length X"
  shows "gp_cost g v X y =
     Some [[(\<Sum>j<length X. (\<Sum>k<length X. y ! k ! 0 * Ki ! k ! j) * y ! j ! 0)
            + ln (detf (length X) (of_mat K))]]"
proof -
  let ?n = "length X"
  have lK: "length K = ?n" using K by (auto simp: gp_K_value)
  note inv = tf_matrix_inverse_Some [OF Ki, unfolded lK]
  have ly: "length y = ?n" using y by (simp add: has_shape_def)
  have t: "has_shape 1 ?n (tf_transpose y)"
    by (simp add: tf_transpose_col [OF y n] has_shape_def ly)
  have a: "tf_matmul (tf_transpose y) Ki = Some [map (\<lambda>j. \<Sum>k<?n. y ! k ! 0 * Ki ! k ! j) [0..<?n]]"
  proof -
    have "(\<Sum>k<?n. map (\<lambda>r. r ! 0) y ! k * Ki ! k ! j) = (\<Sum>k<?n. y ! k ! 0 * Ki ! k ! j)" for j
      by (rule sum.cong) (simp_all add: ly)
    then show ?thesis
      using tf_matmul_Some [OF t inv(3) n] by (simp add: tf_transpose_col [OF y n])
  qed
  have sa: "has_shape 1 ?n [map (\<lambda>j. \<Sum>k<?n. y ! k ! 0 * Ki ! k ! j) [0..<?n]]"
    by (simp add: has_shape_def)
  have b: "tf_matmul [map (\<lambda>j. \<Sum>k<?n. y ! k ! 0 * Ki ! k ! j) [0..<?n]] y
      = Some [[\<Sum>j<?n. (\<Sum>k<?n. y ! k ! 0 * Ki ! k ! j) * y ! j ! 0]]"
  proof -
    have "(\<Sum>j<?n. map (\<lambda>j. \<Sum>k<?n. y ! k ! 0 * Ki ! k ! j) [0..<?n] ! j * y ! j ! 0)
        = (\<Sum>j<?n. (\<Sum>k<?n. y ! k ! 0 * Ki ! k ! j) * y ! j ! 0)"
      by (rule sum.cong) simp_all
    then show ?thesis using tf_matmul_Some [OF sa y n] by simp
  qed
  have d: "tf_matrix_determinant K = Some (detf ?n (of_mat K))"
    using inv(1) by (simp add: tf_matrix_determinant_def lK)
  show ?thesis
    unfolding gp_cost_def by (simp add: K Ki a b d tf_add_scalar_def)
qed


lemma inverse_matmul:
  assumes "tf_matrix_inverse K = Some Ki" "0 < length K"
  shows "tf_matmul K Ki = Some (tf_diag (tf_ones (length K)))"
proof -
  let ?n = "length K"
  note inv = tf_matrix_inverse_Some [OF assms(1)]
  have sq: "has_shape ?n ?n K" using inv(1) by (simp add: is_square_shape)
  have "tf_matmul K Ki = Some (map (\<lambda>r. map (\<lambda>j. \<Sum>k<?n. r ! k * Ki ! k ! j) [0..<?n]) K)"
    by (rule tf_matmul_Some [OF sq inv(3) assms(2)])
  also have "map (\<lambda>r. map (\<lambda>j. \<Sum>k<?n. r ! k * Ki ! k ! j) [0..<?n]) K = tf_diag (tf_ones ?n)"
    unfolding tf_diag_ones
    by (rule nth_equalityI) (auto intro!: nth_equalityI simp: inverse_right [OF assms(1)])
  finally show ?thesis .
qed

lemma tf_transpose_nth:
  assumes "has_shape n n A" "i < n" "j < n"
  shows "tf_transpose A ! i ! j = A ! j ! i"
proof -
  have "0 < n" using assms(2) by simp
  from ncols_shape [OF assms(1) this] assms show ?thesis
    by (simp add: tf_transpose_def has_shape_def)
qed

lemma tf_transpose_shape:
  assumes "has_shape n n A"
  shows "has_shape n n (tf_transpose A)"
proof (cases "n = 0")
  case True
  with assms show ?thesis by (simp add: has_shape_def tf_transpose_def ncols_def)
next
  case False
  then have "ncols A = n" using ncols_shape [OF assms] by simp
  with assms show ?thesis by (simp add: tf_transpose_def has_shape_def list_all_length)
qed

lemma det_entry_affine:
  assumes "is_square A" "i < length A" "j < length A"
  shows "detf (length A) (of_mat (set_entry A i j t))
       = detf (length A) (setrow i (\<lambda>c. if c = j then 0 else A ! i ! c) (of_mat A))
         + t * cofactor (length A) (of_mat A) i j"
proof -
  have row: "length (A ! i) = length A"
    using assms(1,2) by (simp add: is_square_def list_all_length)
  have "detf (length A) (of_mat (set_entry A i j t))
       = 1 * detf (length A) (setrow i (\<lambda>c. if c = j then 0 else A ! i ! c) (of_mat A))
         + t * detf (length A) (setrow i (unitv j) (of_mat A))"
  proof (rule detf_row_linear [OF assms(2)])
    fix c assume "c < length A"
    then show "of_mat (set_entry A i j t) i c =
        1 * setrow i (\<lambda>c. if c = j then 0 else A ! i ! c) (of_mat A) i c
        + t * setrow i (unitv j) (of_mat A) i c"
      using assms(2,3) row by (simp add: of_mat_def set_entry_def setrow_def unitv_def)
  next
    fix r c assume "r < length A" "r \<noteq> i" "c < length A"
    then show "of_mat (set_entry A i j t) r c
        = setrow i (\<lambda>c. if c = j then 0 else A ! i ! c) (of_mat A) r c"
      and "of_mat (set_entry A i j t) r c = setrow i (unitv j) (of_mat A) r c"
      by (simp_all add: of_mat_def set_entry_def setrow_def)
  qed
  then show ?thesis by (simp add: cofactor_def)
qed

section \<open>A bound for positive semidefinite kernels\<close>

lemma schur_bound:
  fixes \<kappa> :: "'a \<Rightarrow> 'a \<Rightarrow> real" and x :: "nat \<Rightarrow> 'a" and Ki :: "nat \<Rightarrow> nat \<Rightarrow> real"
  assumes sym: "\<And>a b. \<kappa> a b = \<kappa> b a"
    and psd: "\<And>(n::nat) (p::nat \<Rightarrow> 'a) (c::nat \<Rightarrow> real). 0 \<le> (\<Sum>i<n. \<Sum>j<n. c i * c j * \<kappa> (p i) (p j))"
    and inv: "\<And>l j. l < N \<Longrightarrow> j < N \<Longrightarrow>
        (\<Sum>m<N. (\<kappa> (x l) (x m) + s * (if l = m then 1 else 0)) * Ki m j) = (if l = j then 1 else 0)"
    and s: "0 \<le> s"
  shows "(\<Sum>j<N. (\<Sum>l<N. \<kappa> q (x l) * Ki l j) * \<kappa> q (x j)) \<le> \<kappa> q q"
proof -
  define kq where "kq = (\<lambda>j. \<kappa> q (x j))"
  define Kf where "Kf = (\<lambda>l m. \<kappa> (x l) (x m) + s * (if l = m then 1 else 0))"
  define u where "u = (\<lambda>l. \<Sum>j<N. Ki l j * kq j)"
  define S where "S = (\<Sum>j<N. (\<Sum>l<N. kq l * Ki l j) * kq j)"
  define Q where "Q = (\<Sum>l<N. \<Sum>m<N. u l * u m * \<kappa> (x l) (x m))"
  have F2: "S = (\<Sum>l<N. kq l * u l)"
  proof -
    have "S = (\<Sum>j<N. \<Sum>l<N. kq l * (Ki l j * kq j))"
      unfolding S_def by (simp add: sum_distrib_right mult.assoc)
    also have "\<dots> = (\<Sum>l<N. \<Sum>j<N. kq l * (Ki l j * kq j))" by (rule sum.swap)
    also have "\<dots> = (\<Sum>l<N. kq l * u l)" unfolding u_def by (simp add: sum_distrib_left)
    finally show ?thesis .
  qed
  have F3: "(\<Sum>m<N. Kf l m * u m) = kq l" if l: "l < N" for l
  proof -
    have "(\<Sum>m<N. Kf l m * u m) = (\<Sum>m<N. \<Sum>j<N. (Kf l m * Ki m j) * kq j)"
      unfolding u_def by (simp add: sum_distrib_left mult.assoc)
    also have "\<dots> = (\<Sum>j<N. \<Sum>m<N. (Kf l m * Ki m j) * kq j)" by (rule sum.swap)
    also have "\<dots> = (\<Sum>j<N. (\<Sum>m<N. Kf l m * Ki m j) * kq j)"
      by (simp add: sum_distrib_right)
    also have "\<dots> = (\<Sum>j<N. (if l = j then 1 else 0) * kq j)"
      by (rule sum.cong) (simp_all add: Kf_def inv [OF l])
    also have "\<dots> = (\<Sum>j<N. if j = l then kq j else 0)"
      by (rule sum.cong) auto
    also have "\<dots> = kq l" using l by (simp add: sum.delta)
    finally show ?thesis .
  qed
  have F4: "S = Q + s * (\<Sum>l<N. u l * u l)"
  proof -
    have "S = (\<Sum>l<N. (\<Sum>m<N. Kf l m * u m) * u l)"
      unfolding F2 by (rule sum.cong) (simp_all add: F3)
    also have "\<dots> = (\<Sum>l<N. (\<Sum>m<N. u l * u m * \<kappa> (x l) (x m)) + s * (u l * u l))"
    proof (rule sum.cong)
      fix l assume "l \<in> {..<N}"
      then have l: "l < N" by simp
      have "(\<Sum>m<N. Kf l m * u m) = (\<Sum>m<N. \<kappa> (x l) (x m) * u m) + (\<Sum>m<N. if m = l then s * u m else 0)"
        unfolding Kf_def sum.distrib [symmetric]
        by (rule sum.cong) (auto simp: algebra_simps)
      also have "(\<Sum>m<N. if m = l then s * u m else 0) = s * u l" using l by (simp add: sum.delta)
      finally have "(\<Sum>m<N. Kf l m * u m) * u l = (\<Sum>m<N. \<kappa> (x l) (x m) * u m) * u l + s * (u l * u l)"
        by (simp add: algebra_simps)
      also have "(\<Sum>m<N. \<kappa> (x l) (x m) * u m) * u l = (\<Sum>m<N. u l * u m * \<kappa> (x l) (x m))"
        unfolding sum_distrib_right by (rule sum.cong) (simp_all add: mult_ac)
      finally show "(\<Sum>m<N. Kf l m * u m) * u l = (\<Sum>m<N. u l * u m * \<kappa> (x l) (x m)) + s * (u l * u l)" .
    qed simp
    also have "\<dots> = Q + s * (\<Sum>l<N. u l * u l)"
      unfolding Q_def by (simp add: sum.distrib sum_distrib_left)
    finally show ?thesis .
  qed
  define p where "p = (\<lambda>i. if i < N then x i else q)"
  define c where "c = (\<lambda>i. if i < N then - u i else 1)"
  have inner: "(\<Sum>j<Suc N. c i * c j * \<kappa> (p i) (p j))
      = (\<Sum>j<N. c i * (- u j) * \<kappa> (p i) (x j)) + c i * \<kappa> (p i) q" for i
  proof -
    have "(\<Sum>j<N. c i * c j * \<kappa> (p i) (p j)) = (\<Sum>j<N. c i * (- u j) * \<kappa> (p i) (x j))"
      by (rule sum.cong) (simp_all add: c_def p_def)
    then show ?thesis by (simp add: c_def p_def)
  qed
  have "0 \<le> (\<Sum>i<Suc N. \<Sum>j<Suc N. c i * c j * \<kappa> (p i) (p j))" by (rule psd)
  also have "\<dots> = (\<Sum>i<Suc N. (\<Sum>j<N. c i * (- u j) * \<kappa> (p i) (x j)) + c i * \<kappa> (p i) q)"
    by (simp only: inner)
  also have "\<dots> = (\<Sum>i<N. (\<Sum>j<N. u i * u j * \<kappa> (x i) (x j)) - u i * kq i)
       + ((\<Sum>j<N. - u j * kq j) + \<kappa> q q)"
  proof -
    have "(\<Sum>i<N. (\<Sum>j<N. c i * (- u j) * \<kappa> (p i) (x j)) + c i * \<kappa> (p i) q)
        = (\<Sum>i<N. (\<Sum>j<N. u i * u j * \<kappa> (x i) (x j)) - u i * kq i)"
      by (rule sum.cong) (simp_all add: c_def p_def kq_def sym [of _ q])
    moreover have "(\<Sum>j<N. c N * (- u j) * \<kappa> (p N) (x j)) + c N * \<kappa> (p N) q
        = (\<Sum>j<N. - u j * kq j) + \<kappa> q q"
      by (simp add: c_def p_def kq_def)
    ultimately show ?thesis by simp
  qed
  also have "\<dots> = Q - 2 * (\<Sum>l<N. kq l * u l) + \<kappa> q q"
    unfolding Q_def by (simp add: sum_subtractf sum_negf mult.commute)
  also have "\<dots> = \<kappa> q q - S - s * (\<Sum>l<N. u l * u l)"
    using F4 F2 by simp
  finally have "S + s * (\<Sum>l<N. u l * u l) \<le> \<kappa> q q" by simp
  moreover have "0 \<le> (\<Sum>l<N. u l * u l)" by (rule sum_nonneg) simp
  then have "0 \<le> s * (\<Sum>l<N. u l * u l)" using s by (rule mult_nonneg_nonneg [rotated])
  ultimately have "S \<le> \<kappa> q q" by linarith
  then show ?thesis unfolding S_def kq_def .
qed

section \<open>\<open>fit\<close> does not read the session or the cached arrays\<close>

lemma xrange_nat: "xrange (int (nat n)) = xrange n"
  by (simp add: xrange_def)

lemma run_train_upd [simp]:
  "run_train (g\<lparr>sess := s, K_invf := k, Xf := x, yf := y0\<rparr>) = run_train g"
  by (simp add: fun_eq_iff run_train_def feed_ok_def gp_cost_def gp_K_def)

lemma batch_loop_upd [simp]:
  "batch_loop (g\<lparr>sess := s, K_invf := k, Xf := x, yf := y0\<rparr>) X y js st = batch_loop g X y js st"
  by (induction g X y js st rule: batch_loop.induct) (simp_all add: Let_def split: option.splits)

lemma epoch_loop_upd [simp]:
  "epoch_loop (g\<lparr>sess := s, K_invf := k, Xf := x, yf := y0\<rparr>) rnd nb is st = epoch_loop g rnd nb is st"
  by (induction g rnd nb "is" st rule: epoch_loop.induct)
     (simp_all add: Let_def split: option.splits prod.splits)

lemma fit_loops_upd [simp]:
  "fit_loops (g\<lparr>sess := s, K_invf := k, Xf := x, yf := y0\<rparr>) = fit_loops g"
  by (simp add: fun_eq_iff fit_loops_def initialize_all_variables_def)

lemma run_K_inv_upd [simp]:
  "run_K_inv (g\<lparr>sess := s, K_invf := k, Xf := x, yf := y0\<rparr>) = run_K_inv g"
  by (simp add: fun_eq_iff run_K_inv_def feed_ok_def gp_K_inv_def gp_K_def)

lemma fit_upd:
  "fit g rnd ki X y = Some g' \<Longrightarrow>
     fit (g\<lparr>sess := s, K_invf := k, Xf := x, yf := y0\<rparr>) rnd ki X y = Some g'"
  by (auto simp: fit_def split: option.splits)

lemma predict_reads:
  "kernel h = kernel g \<Longrightarrow> sess h = sess g \<Longrightarrow> K_invf h = K_invf g \<Longrightarrow> Xf h = Xf g \<Longrightarrow>
     yf h = yf g \<Longrightarrow> predict h Xq = predict g Xq"
  by (simp add: predict_def)

section \<open>Evaluation of the example\<close>

lemmas ops = tf_matrix_inverse_def tf_matrix_determinant_def is_square_def of_mat_def cofactor_def setrow_def
  unitv_def skip_def Let_def tf_add_def tf_scale_def tf_square_def tf_diag_def tf_ones_def covariance_def
  tf_matmul_def tf_mul_def tf_transpose_def ncols_def tf_reduce_sum1_def tf_sub_from_scalar_def tf_reshape_col_def
  tf_add_scalar_def

lemmas gpdefs = fit_def fit_loops_def run_K_inv_def run_train_def gp_K_inv_def gp_K_def gp_cost_def feed_ok_def
  minimize_def initialize_all_variables_def xrange_def py_slice_def slice_bound_def np_take_def predict_def
  GaussianProcess_def

lemma fit_example:
  "fit (GaussianProcess 1 ex_kernel 1 1 1 tn ex_optimizer 0) (\<lambda>_. [1, 0]) ex_init [[1], [2]] [[10], [20]] =
   Some ((GaussianProcess 1 ex_kernel 1 1 1 tn ex_optimizer 0)
     \<lparr>sess := Some \<lparr>length_scales = [1/4], amp = 1, noise = (if tn then 3 else 1)\<rparr>,
      K_invf := Some (if tn then [[10/99, -1/99], [-1/99, 10/99]] else [[2/3, -1/3], [-1/3, 2/3]]),
      Xf := Some [[2], [1]], yf := Some [[20], [10]]\<rparr>)"
  by (simp add: ex_kernel_def ex_optimizer_def ex_init_def gpdefs ops eval_nat_numeral)


lemma perm_example: "mset [2, 0, 1] = mset [0..<length [[1], [2], [3::real]]]"
  by (simp add: eval_nat_numeral)

lemma ex_fit: "fit ex_gp ex_swap ex_init [[1], [2]] [[10], [20]] = Some ex_fitted"
  unfolding ex_gp_def ex_swap_def ex_fitted_def ex_vars_def using fit_example [of False] by simp

lemma ex_K: "gp_K ex_gp ex_vars [[1], [2]] = Some [[2, 1], [1, 2]]"
  by (simp add: ex_gp_def ex_vars_def ex_kernel_def gpdefs ops eval_nat_numeral)

lemma ex_inverse: "tf_matrix_inverse [[2, 1], [1, 2]] = Some [[2/3, -1/3], [-1/3, 2/3]]"
  by (simp add: ops eval_nat_numeral)

lemma ex_det: "tf_matrix_determinant [[2, 1], [1, 2]] = Some 3"
  by (simp add: ops eval_nat_numeral)

lemma ex_predict: "predict ex_fitted [[5], [7]] = Some ([[10], [10]], [[1/3], [1/3]])"
  by (simp add: ex_fitted_def ex_gp_def ex_vars_def ex_kernel_def gpdefs ops eval_nat_numeral)

lemma ex_kernel_psd: "psd_kernel (ex_kernel ls a)"
proof -
  have "(\<Sum>i<n. \<Sum>j<n. c i * c j * (a * a)) = (a * (\<Sum>i<n. c i)) * (a * (\<Sum>i<n. c i))"
    for n :: nat and c :: "nat \<Rightarrow> real"
    by (simp add: sum_product sum_distrib_left sum_distrib_right mult_ac)
  then show ?thesis by (simp add: psd_kernel_def ex_kernel_def)
qed

lemma ex_K_inv: "gp_K_inv ex_fitted ex_vars [[2], [1]] = Some [[2/3, -1/3], [-1/3, 2/3]]"
  by (simp add: ex_fitted_def ex_gp_def ex_vars_def ex_kernel_def gpdefs ops eval_nat_numeral)

lemma ex_grad: "tf_scale (5 * 3) (tf_transpose [[2/3, -1/3], [-1/3, 2/3]]) = [[10, -5], [-5, 10]]"
  by (simp add: ops eval_nat_numeral)

lemma ex3_fit_loops:
  "fit_loops ex_gp3 ex_rot ex_init [[1], [2], [3]] [[10], [20], [30]] =
   Some \<lparr>vars = \<lparr>length_scales = [2301], amp = 1, noise = 1\<rparr>,
         cur_X = [[2], [3], [1]], cur_y = [[20], [30], [10]],
         epochs = [([[3], [1], [2]], [[30], [10], [20]], [([[3], [1]], [[30], [10]])]),
                   ([[2], [3], [1]], [[20], [30], [10]], [([[2], [3]], [[20], [30]])])]\<rparr>"
  by (simp add: ex_gp3_def ex_rot_def ex_kernel_def ex_loss_optimizer_def ex_init_def gpdefs ops
      eval_nat_numeral)

lemma ex_zero_fit_loops:
  "fit_loops ex_zero_gp ex_swap ex_init [[1], [2]] [[10], [20]] = None"
  by (simp add: ex_zero_gp_def fit_loops_def GaussianProcess_def)

lemma ex_neg_fit_loops:
  "fit_loops ex_neg_gp ex_swap ex_init [[1], [2]] [[10], [20]] =
   Some \<lparr>vars = \<lparr>length_scales = [1], amp = 1, noise = 1\<rparr>,
         cur_X = [[2], [1]], cur_y = [[20], [10]],
         epochs = [([[2], [1]], [[20], [10]], [])]\<rparr>"
  by (simp add: ex_neg_gp_def ex_swap_def ex_kernel_def ex_optimizer_def ex_init_def gpdefs ops
      eval_nat_numeral)

section \<open>The covariance matrix and the loss (claim C1)\<close>

text \<open>
  Claim C1. For every fed input \<open>X\<close> (any number of rows \<open>N\<close> and of columns) and every
  value of the noise variable, the node \<open>K\<close> evaluates to the kernel covariance of \<open>X\<close>
  with itself plus the square of the noise times the \<open>N \<times> N\<close> identity: entry \<open>(i, j)\<close> is
  the kernel value of rows \<open>i\<close> and \<open>j\<close>, plus \<open>noise\<^sup>2\<close> on the diagonal. Where \<open>K\<close> has an
  inverse \<open>Ki\<close> (and \<open>y\<close> is \<open>N \<times> 1\<close>, \<open>N > 0\<close>), the node \<open>K_inv\<close> evaluates to it,
  \<open>K \<cdot> Ki\<close> is the identity, and the loss evaluates to the \<open>1 \<times> 1\<close> matrix
  \<open>y\<^sup>T \<cdot> Ki \<cdot> y + log (det K)\<close>.
\<close>

theorem covariance_and_cost:
  "\<exists>K. gp_K g v X = Some K
     \<and> tf_add (covariance (kernel g) v X (Some X))
              (tf_scale (noise v * noise v) (tf_diag (tf_ones (length X)))) = Some K
     \<and> has_shape (length X) (length X) K
     \<and> (\<forall>i<length X. \<forall>j<length X.
           K ! i ! j = kernel g (length_scales v) (amp v) (X ! i) (X ! j)
                       + noise v * noise v * (if i = j then 1 else 0))
     \<and> (\<forall>y Ki. has_shape (length X) 1 y \<and> 0 < length X \<and> tf_matrix_inverse K = Some Ki \<longrightarrow>
           gp_K_inv g v X = Some Ki
         \<and> tf_matmul K Ki = Some (tf_diag (tf_ones (length X)))
         \<and> (\<exists>d. tf_matrix_determinant K = Some d
              \<and> gp_cost g v X y =
                  Some [[(\<Sum>j<length X. (\<Sum>k<length X. y ! k ! 0 * Ki ! k ! j) * y ! j ! 0) + ln d]]))"
proof -
  let ?n = "length X"
  define K where "K = map (\<lambda>i. map (\<lambda>j. kernel g (length_scales v) (amp v) (X ! i) (X ! j)
       + noise v * noise v * (if i = j then 1 else 0)) [0..<?n]) [0..<?n]"
  have K: "gp_K g v X = Some K" unfolding K_def by (rule gp_K_value)
  have lK: "length K = ?n" by (simp add: K_def)
  have 1: "tf_add (covariance (kernel g) v X (Some X))
              (tf_scale (noise v * noise v) (tf_diag (tf_ones ?n))) = Some K"
    using K by (simp add: gp_K_def covariance_None tf_square_def)
  have 2: "has_shape ?n ?n K" by (simp add: K_def has_shape_def list_all_length)
  have 3: "\<forall>i<?n. \<forall>j<?n. K ! i ! j = kernel g (length_scales v) (amp v) (X ! i) (X ! j)
                       + noise v * noise v * (if i = j then 1 else 0)"
    by (simp add: K_def)
  have 4: "gp_K_inv g v X = Some Ki
         \<and> tf_matmul K Ki = Some (tf_diag (tf_ones ?n))
         \<and> (\<exists>d. tf_matrix_determinant K = Some d
              \<and> gp_cost g v X y =
                  Some [[(\<Sum>j<?n. (\<Sum>k<?n. y ! k ! 0 * Ki ! k ! j) * y ! j ! 0) + ln d]])"
    if "has_shape ?n 1 y \<and> 0 < ?n \<and> tf_matrix_inverse K = Some Ki" for y Ki
  proof -
    from that have y: "has_shape ?n 1 y" and n: "0 < ?n" and Ki: "tf_matrix_inverse K = Some Ki"
      by simp_all
    have "gp_K_inv g v X = Some Ki" by (simp add: gp_K_inv_def K Ki)
    moreover have "tf_matmul K Ki = Some (tf_diag (tf_ones ?n))"
      using inverse_matmul [OF Ki] n by (simp add: lK)
    moreover have "tf_matrix_determinant K = Some (detf ?n (of_mat K))"
      using tf_matrix_inverse_Some(1) [OF Ki] by (simp add: tf_matrix_determinant_def lK)
    moreover note gp_cost_value [OF K Ki y n]
    ultimately show ?thesis by blast
  qed
  from K 1 2 3 4 show ?thesis by blast
qed

theorem covariance_and_cost_witness:
  "gp_K ex_gp ex_vars [[1], [2]] = Some [[2, 1], [1, 2]]
   \<and> gp_K_inv ex_gp ex_vars [[1], [2]] = Some [[2/3, -1/3], [-1/3, 2/3]]
   \<and> gp_cost ex_gp ex_vars [[1], [2]] [[3], [0]] = Some [[6 + ln 3]]"
proof -
  let ?X = "[[1], [2::real]]"
  let ?y = "[[3], [0::real]]"
  let ?Ki = "[[2/3, -1/3], [-1/3, 2/3::real]]"
  from covariance_and_cost [of ex_gp ex_vars ?X] obtain K where
    K: "gp_K ex_gp ex_vars ?X = Some K" and
    c: "\<forall>y Ki. has_shape (length ?X) 1 y \<and> 0 < length ?X \<and> tf_matrix_inverse K = Some Ki \<longrightarrow>
           gp_K_inv ex_gp ex_vars ?X = Some Ki
         \<and> tf_matmul K Ki = Some (tf_diag (tf_ones (length ?X)))
         \<and> (\<exists>d. tf_matrix_determinant K = Some d
              \<and> gp_cost ex_gp ex_vars ?X y =
                  Some [[(\<Sum>j<length ?X. (\<Sum>k<length ?X. y ! k ! 0 * Ki ! k ! j) * y ! j ! 0) + ln d]])"
    by blast
  from K have K2: "K = [[2, 1], [1, 2]]" by (simp add: ex_K)
  have h: "has_shape (length ?X) 1 ?y \<and> 0 < length ?X \<and> tf_matrix_inverse K = Some ?Ki"
    by (simp add: K2 ex_inverse has_shape_def)
  from c [rule_format, OF h] obtain d where
    i: "gp_K_inv ex_gp ex_vars ?X = Some ?Ki" and
    d: "tf_matrix_determinant K = Some d" and
    cost: "gp_cost ex_gp ex_vars ?X ?y =
       Some [[(\<Sum>j<length ?X. (\<Sum>k<length ?X. ?y ! k ! 0 * ?Ki ! k ! j) * ?y ! j ! 0) + ln d]]"
    by blast
  from d have "d = 3" by (simp add: K2 ex_det)
  with cost have "gp_cost ex_gp ex_vars ?X ?y = Some [[6 + ln 3]]"
    by (simp add: eval_nat_numeral)
  with K K2 i show ?thesis by simp
qed

section \<open>The posterior mean and variance (claim C2)\<close>

text \<open>
  Claim C2. For a fitted model (cached inverse \<open>N \<times> N\<close>, cached \<open>y\<close> of shape \<open>N \<times> 1\<close>, cached
  \<open>X\<close> of \<open>N > 0\<close> rows) and every query matrix of \<open>M\<close> rows, \<open>predict\<close> returns the mean
  \<open>A \<cdot> y\<close> of shape \<open>(M, 1)\<close> with \<open>A = K\<^sub>* \<cdot> K_invf\<close> and \<open>K\<^sub>*\<close> the kernel covariance of the
  query rows against the cached rows, and the variance of shape \<open>(M, 1)\<close> whose entry \<open>i\<close> is
  \<open>amp\<^sup>2 - \<Sum>\<^sub>j A[i,j] \<cdot> K\<^sub>*[i,j]\<close>. Entry \<open>i\<close> of both results is what \<open>predict\<close> returns for
  the single query row \<open>i\<close>: no covariance between distinct query points enters.
\<close>

theorem predict_posterior:
  fixes Xq :: mat
  assumes "sess g = Some v" "Xf g = Some Xt" "K_invf g = Some Ki" "yf g = Some yt"
    and "has_shape N N Ki" "has_shape N 1 yt" "length Xt = N" "0 < N"
  shows "\<exists>Ks A mean var.
       Ks = covariance (kernel g) v Xq (Some Xt)
     \<and> tf_matmul Ks Ki = Some A
     \<and> predict g Xq = Some (mean, var)
     \<and> tf_matmul A yt = Some mean
     \<and> has_shape (length Xq) 1 mean \<and> has_shape (length Xq) 1 var
     \<and> (\<forall>i<length Xq.
           (\<forall>j<N. Ks ! i ! j = kernel g (length_scales v) (amp v) (Xq ! i) (Xt ! j)
                 \<and> A ! i ! j = (\<Sum>k<N. Ks ! i ! k * Ki ! k ! j))
         \<and> mean ! i = [\<Sum>j<N. A ! i ! j * yt ! j ! 0]
         \<and> var ! i = [amp v * amp v - (\<Sum>j<N. A ! i ! j * Ks ! i ! j)]
         \<and> predict g [Xq ! i] = Some ([mean ! i], [var ! i]))"
proof -
  define Ks where "Ks = covariance (kernel g) v Xq (Some Xt)"
  define A where "A = map (\<lambda>r. map (\<lambda>j. \<Sum>k<N. r ! k * Ki ! k ! j) [0..<N]) Ks"
  define mean where "mean = map (\<lambda>r. [\<Sum>k<N. r ! k * yt ! k ! 0]) A"
  define var where "var = map (\<lambda>i. [amp v * amp v - (\<Sum>j<N. A ! i ! j * Ks ! i ! j)]) [0..<length Xq]"
  note pv = predict_value [OF assms, of Xq, folded Ks_def, folded A_def, folded mean_def var_def]
  have ks: "has_shape (length Xq) N Ks"
    unfolding Ks_def using covariance_shape [of Xq Xt] assms(7) by simp
  have a: "has_shape (length Xq) N A"
    by (rule tf_matmul_shape(1) [OF ks assms(5,8) pv(1)])
  have len: "length A = length Xq" "length Ks = length Xq"
    using a ks by (simp_all add: has_shape_def)
  have my: "tf_matmul A yt = Some mean"
    using tf_matmul_Some [OF a assms(6,8)] by (simp add: mean_def)
  have sh: "has_shape (length Xq) 1 mean" "has_shape (length Xq) 1 var"
    by (simp_all add: mean_def var_def has_shape_def list_all_length len)
  have row: "(\<forall>j<N. Ks ! i ! j = kernel g (length_scales v) (amp v) (Xq ! i) (Xt ! j)
                 \<and> A ! i ! j = (\<Sum>k<N. Ks ! i ! k * Ki ! k ! j))
         \<and> mean ! i = [\<Sum>j<N. A ! i ! j * yt ! j ! 0]
         \<and> var ! i = [amp v * amp v - (\<Sum>j<N. A ! i ! j * Ks ! i ! j)]
         \<and> predict g [Xq ! i] = Some ([mean ! i], [var ! i])" if i: "i < length Xq" for i
  proof -
    have e: "\<forall>j<N. Ks ! i ! j = kernel g (length_scales v) (amp v) (Xq ! i) (Xt ! j)
                 \<and> A ! i ! j = (\<Sum>k<N. Ks ! i ! k * Ki ! k ! j)"
      using i assms(7) tf_matmul_shape(2) [OF ks assms(5,8) pv(1) i]
      by (simp add: Ks_def covariance_nth)
    have m: "mean ! i = [\<Sum>j<N. A ! i ! j * yt ! j ! 0]"
      using i by (simp add: mean_def len)
    have w: "var ! i = [amp v * amp v - (\<Sum>j<N. A ! i ! j * Ks ! i ! j)]"
      using i by (simp add: var_def)
    have k1: "covariance (kernel g) v [Xq ! i] (Some Xt) = [Ks ! i]"
      using i by (simp add: Ks_def covariance_Some)
    have a1: "A ! i = map (\<lambda>j. \<Sum>k<N. Ks ! i ! k * Ki ! k ! j) [0..<N]"
      using i by (simp add: A_def len)
    have "predict g [Xq ! i] = Some ([mean ! i], [var ! i])"
      using predict_value(2) [OF assms, of "[Xq ! i]"]
      by (simp add: k1 a1 [symmetric] m w)
    with e m w show ?thesis by blast
  qed
  from pv my sh row show ?thesis unfolding Ks_def [symmetric] by blast
qed

theorem predict_posterior_witness:
  "fit ex_gp ex_swap ex_init [[1], [2]] [[10], [20]] = Some ex_fitted
   \<and> predict ex_fitted [[5], [7]] = Some ([[10], [10]], [[1/3], [1/3]])
   \<and> predict ex_fitted [[7]] = Some ([[10]], [[1/3]])"
proof -
  have f: "sess ex_fitted = Some ex_vars" "Xf ex_fitted = Some [[2], [1]]"
    "K_invf ex_fitted = Some [[2/3, -1/3], [-1/3, 2/3]]" "yf ex_fitted = Some [[20], [10]]"
    by (simp_all add: ex_fitted_def)
  have s: "has_shape 2 2 [[2/3, -1/3], [-1/3, 2/3::real]]" "has_shape 2 1 [[20], [10::real]]"
    "length [[2], [1::real]] = 2" "0 < (2::nat)"
    by (simp_all add: has_shape_def)
  from predict_posterior [OF f s, of "[[5], [7]]"] obtain mean var where
    p: "predict ex_fitted [[5], [7]] = Some (mean, var)" and
    q: "\<forall>i<length [[5], [7::real]]. predict ex_fitted [[[5], [7]] ! i] = Some ([mean ! i], [var ! i])"
    by blast
  from p have mv: "mean = [[10], [10]]" "var = [[1/3], [1/3]]" by (simp_all add: ex_predict)
  have "(1::nat) < length [[5], [7::real]]" by simp
  from q [rule_format, OF this] have "predict ex_fitted [[7]] = Some ([[10]], [[1/3]])"
    by (simp add: mv)
  with p mv ex_fit show ?thesis by simp
qed

section \<open>The gradient of the determinant (claim C3)\<close>

text \<open>
  Claim C3. For every square matrix \<open>A\<close> on which the inverse is defined and every scalar
  gradient \<open>g\<close> flowing into the output, the registered rule returns exactly
  \<open>g \<cdot> det A \<cdot> (A\<^sup>-\<^sup>1)\<^sup>T\<close>, a matrix of the shape of \<open>A\<close>, and this is the gradient of the
  determinant with respect to \<open>A\<close> scaled by \<open>g\<close>: entry \<open>(i, j)\<close> is the derivative of
  \<open>g \<cdot> det\<close> with respect to the entry \<open>(i, j)\<close> of \<open>A\<close>.
\<close>

theorem determinant_gradient:
  assumes "tf_matrix_inverse A = Some Ai"
  shows "\<exists>d G. tf_matrix_determinant A = Some d
     \<and> MatrixDeterminant_grad A g = Some G
     \<and> G = tf_scale (g * d) (tf_transpose Ai)
     \<and> has_shape (length A) (length A) G
     \<and> (\<forall>i<length A. \<forall>j<length A.
          G ! i ! j = g * d * Ai ! j ! i
        \<and> (\<forall>t. tf_matrix_determinant (set_entry A i j t)
                  = Some (detf (length A) (of_mat (set_entry A i j t))))
        \<and> ((\<lambda>t. g * detf (length A) (of_mat (set_entry A i j t)))
              has_real_derivative G ! i ! j) (at (A ! i ! j)))"
proof -
  let ?n = "length A"
  define d where "d = detf ?n (of_mat A)"
  define G where "G = tf_scale (g * d) (tf_transpose Ai)"
  note inv = tf_matrix_inverse_Some [OF assms, folded d_def]
  have dt: "tf_matrix_determinant A = Some d"
    using inv(1) by (simp add: tf_matrix_determinant_def d_def)
  have gr: "MatrixDeterminant_grad A g = Some G"
    by (simp add: MatrixDeterminant_grad_def dt assms G_def)
  have st: "has_shape ?n ?n (tf_transpose Ai)" by (rule tf_transpose_shape [OF inv(3)])
  have sh: "has_shape ?n ?n G"
    using st by (simp add: G_def tf_scale_def has_shape_def list_all_length)
  have ent: "G ! i ! j = g * d * Ai ! j ! i
        \<and> (\<forall>t. tf_matrix_determinant (set_entry A i j t)
                  = Some (detf ?n (of_mat (set_entry A i j t))))
        \<and> ((\<lambda>t. g * detf ?n (of_mat (set_entry A i j t)))
              has_real_derivative G ! i ! j) (at (A ! i ! j))"
    if i: "i < ?n" and j: "j < ?n" for i j
  proof -
    have li: "length (tf_transpose Ai) = ?n" "length (tf_transpose Ai ! i) = ?n"
      using st i by (simp_all add: has_shape_def list_all_length)
    have e: "G ! i ! j = g * d * Ai ! j ! i"
      using i j li by (simp add: G_def tf_scale_def tf_transpose_nth [OF inv(3) i j])
    have cof: "G ! i ! j = g * cofactor ?n (of_mat A) i j"
      unfolding e using inv(2) by (simp add: inv(4) [OF j i])
    have sq: "is_square (set_entry A i j t)" for t
      using inv(1) i by (auto simp: is_square_def set_entry_def list_all_length nth_list_update)
    have dets: "tf_matrix_determinant (set_entry A i j t)
                  = Some (detf ?n (of_mat (set_entry A i j t)))" for t
      using sq [of t] by (simp add: tf_matrix_determinant_def) (simp add: set_entry_def)
    have "((\<lambda>t. g * (detf ?n (setrow i (\<lambda>c. if c = j then 0 else A ! i ! c) (of_mat A))
              + t * cofactor ?n (of_mat A) i j))
            has_real_derivative g * cofactor ?n (of_mat A) i j) (at (A ! i ! j))"
      by (auto intro!: derivative_eq_intros)
    then have "((\<lambda>t. g * detf ?n (of_mat (set_entry A i j t)))
              has_real_derivative G ! i ! j) (at (A ! i ! j))"
      by (simp only: det_entry_affine [OF inv(1) i j] cof)
    with e dets show ?thesis by (intro conjI allI)
  qed
  have all: "\<forall>i<?n. \<forall>j<?n. G ! i ! j = g * d * Ai ! j ! i
        \<and> (\<forall>t. tf_matrix_determinant (set_entry A i j t)
                  = Some (detf ?n (of_mat (set_entry A i j t))))
        \<and> ((\<lambda>t. g * detf ?n (of_mat (set_entry A i j t)))
              has_real_derivative G ! i ! j) (at (A ! i ! j))"
    by (intro allI impI ent)
  show ?thesis
    by (rule exI [of _ d], rule exI [of _ G], intro conjI) (rule dt gr G_def sh all)+
qed

theorem determinant_gradient_witness:
  "MatrixDeterminant_grad [[2, 1], [1, 2]] 5 = Some [[10, -5], [-5, 10]]
   \<and> ((\<lambda>t. 5 * detf 2 (of_mat (set_entry [[2, 1], [1, 2]] 0 1 t))) has_real_derivative - 5) (at 1)"
proof -
  let ?A = "[[2, 1], [1, 2::real]]"
  from determinant_gradient [OF ex_inverse, of 5] obtain d G where
    d: "tf_matrix_determinant ?A = Some d" and
    gr: "MatrixDeterminant_grad ?A 5 = Some G" and
    G: "G = tf_scale (5 * d) (tf_transpose [[2/3, -1/3], [-1/3, 2/3]])" and
    dv: "\<forall>i<length ?A. \<forall>j<length ?A.
          G ! i ! j = 5 * d * [[2/3, -1/3], [-1/3, 2/3]] ! j ! i
        \<and> (\<forall>t. tf_matrix_determinant (set_entry ?A i j t)
                  = Some (detf (length ?A) (of_mat (set_entry ?A i j t))))
        \<and> ((\<lambda>t. 5 * detf (length ?A) (of_mat (set_entry ?A i j t)))
              has_real_derivative G ! i ! j) (at (?A ! i ! j))"
    by blast
  from d have d3: "d = 3" by (simp add: ex_det)
  have G2: "G = [[10, -5], [-5, 10]]" unfolding G d3 by (rule ex_grad)
  have "(0::nat) < length ?A" "(1::nat) < length ?A" by simp_all
  from dv [rule_format, OF this]
  have "((\<lambda>t. 5 * detf (length ?A) (of_mat (set_entry ?A 0 1 t)))
              has_real_derivative G ! 0 ! 1) (at (?A ! 0 ! 1))" by blast
  moreover have "length ?A = 2" "G ! 0 ! 1 = - 5" "?A ! 0 ! 1 = 1" by (simp_all add: G2)
  ultimately have "((\<lambda>t. 5 * detf 2 (of_mat (set_entry ?A 0 1 t))) has_real_derivative - 5) (at 1)"
    by (simp only:)
  with gr G2 show ?thesis by simp
qed

section \<open>The loops of \<open>fit\<close> return when no training step fails\<close>

lemma list_all_py_slice: "list_all P xs \<Longrightarrow> list_all P (py_slice a b xs)"
  unfolding py_slice_def Let_def list_all_iff
  by (meson in_set_dropD in_set_takeD)

lemma feed_ok_slice: "feed_ok g X y \<Longrightarrow> feed_ok g (py_slice a b X) (py_slice a b y)"
  by (simp add: feed_ok_def list_all_py_slice)

lemma run_train_total:
  assumes "feed_ok g X y" "\<forall>loss v. optimizer g loss v \<noteq> None"
  shows "\<exists>v'. run_train g v X y = Some v'"
proof -
  from assms(2) obtain w where "optimizer g (\<lambda>v'. gp_cost g v' X y) v = Some w" by blast
  with assms(1) show ?thesis by (simp add: run_train_def minimize_def)
qed

lemma batch_loop_total:
  assumes "feed_ok g X y" "\<forall>loss v. optimizer g loss v \<noteq> None"
  shows "\<exists>r. batch_loop g X y js (v, acc) = Some r"
proof (induction js arbitrary: v acc)
  case Nil
  show ?case by simp
next
  case (Cons j js)
  let ?mx = "py_slice (j * batch_size g) ((j + 1) * batch_size g) X"
  let ?my = "py_slice (j * batch_size g) ((j + 1) * batch_size g) y"
  from run_train_total [OF feed_ok_slice [OF assms(1)] assms(2)]
  obtain v' where "run_train g v ?mx ?my = Some v'" by blast
  with Cons.IH [of v' "acc @ [(?mx, ?my)]"] show ?case by (simp add: Let_def)
qed

lemma np_take_perm:
  assumes "mset p = mset [0..<length A]"
  shows "np_take A p = Some (map ((!) A) p)"
  using perm_bounds [OF assms] by (simp add: np_take_def list_all_iff)

lemma feed_ok_take:
  assumes "feed_ok g X y" "\<forall>i\<in>set p. i < length X" "length y = length X"
  shows "feed_ok g (map ((!) X) p) (map ((!) y) p)"
  using assms by (auto simp: feed_ok_def list_all_iff)

lemma epoch_loop_total:
  assumes "\<forall>loss v. optimizer g loss v \<noteq> None"
  shows "feed_ok g (cur_X st) (cur_y st) \<Longrightarrow> length (cur_X st) = N \<Longrightarrow> length (cur_y st) = N \<Longrightarrow>
     \<forall>i\<in>set is. mset (rnd (nat i)) = mset [0..<N] \<Longrightarrow>
     \<exists>st'. epoch_loop g rnd nb is st = Some st'"
proof (induction "is" arbitrary: st)
  case Nil
  show ?case by simp
next
  case (Cons i "is")
  let ?p = "rnd (nat i)"
  let ?X = "map ((!) (cur_X st)) ?p"
  let ?y = "map ((!) (cur_y st)) ?p"
  have p: "mset ?p = mset [0..<N]" using Cons.prems(4) by simp
  note pb = perm_bounds [OF p]
  have tx: "np_take (cur_X st) ?p = Some ?X" by (rule np_take_perm) (simp add: p Cons.prems(2))
  have ty: "np_take (cur_y st) ?p = Some ?y" by (rule np_take_perm) (simp add: p Cons.prems(3))
  have fo: "feed_ok g ?X ?y"
    by (rule feed_ok_take [OF Cons.prems(1)]) (use pb Cons.prems(2,3) in simp_all)
  from batch_loop_total [OF fo assms] obtain v' acc where
    bl: "batch_loop g ?X ?y (xrange nb) (vars st, []) = Some (v', acc)" by (metis surj_pair)
  let ?st = "\<lparr>vars = v', cur_X = ?X, cur_y = ?y, epochs = epochs st @ [(?X, ?y, acc)]\<rparr>"
  have "\<exists>st'. epoch_loop g rnd nb is ?st = Some st'"
    by (rule Cons.IH) (use fo pb Cons.prems(4) in simp_all)
  then show ?case by (simp add: Let_def tx ty bl)
qed

lemma fit_loops_total:
  assumes "batch_size g \<noteq> 0" "\<forall>loss v. optimizer g loss v \<noteq> None"
    and "feed_ok g X y" "length y = length X"
    and "\<forall>i<nat (n_epochs g). mset (rnd i) = mset [0..<length X]"
  shows "\<exists>st. fit_loops g rnd ki X y = Some st"
proof -
  have "\<forall>i\<in>set (xrange (n_epochs g)). mset (rnd (nat i)) = mset [0..<length X]"
    using assms(5) by (auto simp: xrange_def)
  from epoch_loop_total [OF assms(2) _ _ _ this,
      of "\<lparr>vars = initialize_all_variables g ki, cur_X = X, cur_y = y, epochs = []\<rparr>"]
  show ?thesis using assms(1,3,4) by (simp add: fit_loops_def Let_def)
qed

lemma fit_loops_epochs:
  assumes "0 < batch_size g"
    and "\<forall>i<nat (n_epochs g). mset (rnd i) = mset [0..<length X]"
    and "length y = length X"
    and "fit_loops g rnd ki X y = Some st"
  shows "length (epochs st) = nat (n_epochs g) \<and>
     (\<forall>e<nat (n_epochs g).
        (case epochs st ! e of
           (Xe, ye, fd) \<Rightarrow>
             length Xe = length X \<and> length ye = length X
           \<and> length fd = length X div nat (batch_size g)
           \<and> (\<forall>j<length X div nat (batch_size g).
                 fd ! j = (take (nat (batch_size g)) (drop (j * nat (batch_size g)) Xe),
                           take (nat (batch_size g)) (drop (j * nat (batch_size g)) ye))
               \<and> length (fst (fd ! j)) = nat (batch_size g)
               \<and> length (snd (fd ! j)) = nat (batch_size g))
           \<and> concat (map fst fd) = take (length X - length X mod nat (batch_size g)) Xe
           \<and> concat (map snd fd) = take (length X - length X mod nat (batch_size g)) ye))"
proof (intro conjI allI impI)
  show "length (epochs st) = nat (n_epochs g)" by (rule fit_loops_log(4) [OF assms(4)])
next
  fix e assume e: "e < nat (n_epochs g)"
  define b where "b = nat (batch_size g)"
  define N where "N = length X"
  define Xe where "Xe = shuffled rnd (xrange (int (Suc e))) X"
  define ye where "ye = shuffled rnd (xrange (int (Suc e))) y"
  define fd where "fd = map (\<lambda>j. (take b (drop (j * b) Xe), take b (drop (j * b) ye))) [0..<N div b]"
  have b0: "0 < b" using assms(1) by (simp add: b_def)
  have nb: "nat (int (length X) div batch_size g) = N div b"
    using assms(1) by (simp add: b_def N_def nat_div_distrib)
  have entry: "epochs st ! e = (Xe, ye, fd)"
    unfolding fit_loops_log(5) [OF assms(4) e] fd_def Xe_def [symmetric] ye_def [symmetric]
    by (simp add: xrange_def nb py_slice_batch [OF assms(1)] b_def [symmetric] o_def)
  have "Suc e \<le> nat (n_epochs g)" using e by simp
  note sp = shuffled_perm [OF assms(2,3) this]
  have len: "length Xe = N" "length ye = N"
    unfolding Xe_def ye_def N_def using sp by blast+
  have fit_in: "Suc j * b \<le> N" if "j < N div b" for j
  proof -
    from that have "Suc j \<le> N div b" by simp
    then have "Suc j * b \<le> N div b * b" by (rule mult_le_mono1)
    also have "\<dots> \<le> N" by simp
    finally show ?thesis .
  qed
  have sz: "length (take b (drop (j * b) A)) = b" if "j < N div b" "length A = N" for j and A :: mat
    using fit_in [OF that(1)] that(2) by simp
  have cc: "concat (map (\<lambda>j. take b (drop (j * b) A)) [0..<N div b]) = take (N - N mod b) A"
    if "length A = N" for A :: mat
    using concat_batches [of "N div b" b A] that by (simp add: minus_mod_eq_div_mult)
  have m1: "map fst fd = map (\<lambda>j. take b (drop (j * b) Xe)) [0..<N div b]"
    and m2: "map snd fd = map (\<lambda>j. take b (drop (j * b) ye)) [0..<N div b]"
    by (simp_all add: fd_def o_def)
  show "case epochs st ! e of
           (Xe, ye, fd) \<Rightarrow>
             length Xe = length X \<and> length ye = length X
           \<and> length fd = length X div nat (batch_size g)
           \<and> (\<forall>j<length X div nat (batch_size g).
                 fd ! j = (take (nat (batch_size g)) (drop (j * nat (batch_size g)) Xe),
                           take (nat (batch_size g)) (drop (j * nat (batch_size g)) ye))
               \<and> length (fst (fd ! j)) = nat (batch_size g)
               \<and> length (snd (fd ! j)) = nat (batch_size g))
           \<and> concat (map fst fd) = take (length X - length X mod nat (batch_size g)) Xe
           \<and> concat (map snd fd) = take (length X - length X mod nat (batch_size g)) ye"
    unfolding entry prod.case b_def [symmetric] N_def [symmetric]
  proof (intro conjI allI impI)
    show "length Xe = N" "length ye = N" by (rule len)+
    show "length fd = N div b" by (simp add: fd_def)
    show "concat (map fst fd) = take (N - N mod b) Xe" unfolding m1 by (rule cc [OF len(1)])
    show "concat (map snd fd) = take (N - N mod b) ye" unfolding m2 by (rule cc [OF len(2)])
  next
    fix j assume j: "j < N div b"
    then show "fd ! j = (take b (drop (j * b) Xe), take b (drop (j * b) ye))"
      by (simp add: fd_def)
    with j show "length (fst (fd ! j)) = b" "length (snd (fd ! j)) = b"
      using sz [OF j len(1)] sz [OF j len(2)] by simp_all
  qed
qed

section \<open>Every training step is an optimizer step on the logged minibatch\<close>

lemma opt_steps_append:
  "opt_steps g (as @ bs) v = (case opt_steps g as v of None \<Rightarrow> None | Some v' \<Rightarrow> opt_steps g bs v')"
  by (induction g "as" v rule: opt_steps.induct) (simp_all split: option.splits)

lemma run_train_minimize:
  "run_train g v X y = Some v' \<Longrightarrow>
     minimize (optimizer g) (var_list g) (\<lambda>v'. gp_cost g v' X y) v = Some v' \<and> feed_ok g X y"
  by (simp add: run_train_def split: if_splits)

lemma batch_loop_steps:
  "batch_loop g X y js (v, acc) = Some (v', acc') \<Longrightarrow>
     \<exists>new. acc' = acc @ new \<and> opt_steps g new v = Some v'"
proof (induction js arbitrary: v acc)
  case Nil
  then show ?case by simp
next
  case (Cons j js)
  let ?mx = "py_slice (j * batch_size g) ((j + 1) * batch_size g) X"
  let ?my = "py_slice (j * batch_size g) ((j + 1) * batch_size g) y"
  from Cons.prems obtain v1 where
    rt: "run_train g v ?mx ?my = Some v1" and
    bl: "batch_loop g X y js (v1, acc @ [(?mx, ?my)]) = Some (v', acc')"
    by (auto simp: Let_def split: option.splits)
  from Cons.IH [OF bl] obtain new where
    new: "acc' = (acc @ [(?mx, ?my)]) @ new" "opt_steps g new v1 = Some v'" by blast
  have "opt_steps g ((?mx, ?my) # new) v = Some v'"
    using run_train_minimize [OF rt] new(2) by simp
  with new(1) show ?case by (intro exI [of _ "(?mx, ?my) # new"]) simp
qed

lemma epoch_loop_steps:
  "epoch_loop g rnd nb is st = Some st' \<Longrightarrow>
     \<exists>new. epochs st' = epochs st @ new
        \<and> opt_steps g (concat (map (\<lambda>e. snd (snd e)) new)) (vars st) = Some (vars st')"
proof (induction "is" arbitrary: st)
  case Nil
  then show ?case by simp
next
  case (Cons i "is")
  from Cons.prems obtain X' y' v' acc where
    bl: "batch_loop g X' y' (xrange nb) (vars st, []) = Some (v', acc)" and
    rec: "epoch_loop g rnd nb is
            \<lparr>vars = v', cur_X = X', cur_y = y', epochs = epochs st @ [(X', y', acc)]\<rparr> = Some st'"
    by (auto simp: Let_def split: option.splits prod.splits)
  from batch_loop_steps [OF bl] have a: "opt_steps g acc (vars st) = Some v'" by simp
  from Cons.IH [OF rec] obtain new where
    new: "epochs st' = (epochs st @ [(X', y', acc)]) @ new"
      "opt_steps g (concat (map (\<lambda>e. snd (snd e)) new)) v' = Some (vars st')"
    by auto
  have "opt_steps g (concat (map (\<lambda>e. snd (snd e)) ((X', y', acc) # new))) (vars st) = Some (vars st')"
    using a new(2) by (simp add: opt_steps_append)
  with new(1) show ?case by (intro exI [of _ "(X', y', acc) # new"]) simp
qed

lemma fit_loops_steps:
  assumes "fit_loops g rnd ki X y = Some st"
  shows "opt_steps g (concat (map (\<lambda>e. snd (snd e)) (epochs st))) (initialize_all_variables g ki)
           = Some (vars st)"
proof -
  from assms have "epoch_loop g rnd (int (length X) div batch_size g) (xrange (n_epochs g))
      \<lparr>vars = initialize_all_variables g ki, cur_X = X, cur_y = y, epochs = []\<rparr> = Some st"
    by (auto simp: fit_loops_def Let_def split: if_splits)
  from epoch_loop_steps [OF this] show ?thesis by simp
qed

lemma length_concat_const:
  "(\<And>x. x \<in> set xs \<Longrightarrow> length (f x) = k) \<Longrightarrow> length (concat (map f xs)) = length xs * k"
  by (induction xs) simp_all

section \<open>Epochs and minibatches (claim C4)\<close>

text \<open>
  Claim C4 as stated holds for every configured \<open>batch_size\<close>. With \<open>batch_size = 0\<close> the
  division \<open>n_samples / batch_size\<close> raises before any epoch; with \<open>batch_size = -2\<close> and two
  rows the quotient \<open>floor (2 / -2)\<close> is \<open>-1\<close> and the epoch performs no optimizer step: the
  variables keep their initial values.
\<close>

theorem batch_size_counterexample:
  "fit_loops ex_zero_gp ex_swap ex_init [[1], [2]] [[10], [20]] = None
   \<and> batch_size ex_neg_gp = - 2
   \<and> int (length [[1], [2::real]]) div batch_size ex_neg_gp = - 1
   \<and> fit_loops ex_neg_gp ex_swap ex_init [[1], [2]] [[10], [20]] =
        Some \<lparr>vars = \<lparr>length_scales = [1], amp = 1, noise = 1\<rparr>,
              cur_X = [[2], [1]], cur_y = [[20], [10]],
              epochs = [([[2], [1]], [[20], [10]], [])]\<rparr>"
  using ex_zero_fit_loops ex_neg_fit_loops by (simp add: ex_neg_gp_def GaussianProcess_def)

text \<open>
  Claim C4, amended. For a training set of \<open>N\<close> rows and every positive \<open>batch_size\<close>, the
  loops of \<open>fit\<close> return whenever the optimizer never fails and the data fit the
  placeholders, and every run of them that returns performs exactly \<open>n_epochs\<close> epochs
  (none when \<open>n_epochs\<close> is negative): nothing stops them early. In each epoch it makes
  exactly \<open>N div batch_size\<close> optimizer steps; step \<open>j\<close> is fed the rows \<open>j * batch_size\<close> up
  to \<open>(j + 1) * batch_size\<close> of that epoch's shuffled \<open>X\<close> and \<open>y\<close>, exactly \<open>batch_size\<close>
  rows each; together the steps cover the first \<open>N - N mod batch_size\<close> rows, so the
  trailing \<open>N mod batch_size\<close> rows of the shuffled order are fed to no step of that
  epoch. The variables the run ends with are those that the optimizer steps on exactly
  these minibatches, in this order, produce from the initialised variables, and the run
  makes \<open>n_epochs * (N div batch_size)\<close> steps in all.
\<close>

theorem epochs_and_minibatches:
  assumes "0 < batch_size g"
    and "\<forall>i<nat (n_epochs g). mset (rnd i) = mset [0..<length X]"
    and "length y = length X"
  shows "((\<forall>loss v. optimizer g loss v \<noteq> None) \<and> feed_ok g X y \<longrightarrow>
            fit_loops g rnd ki X y \<noteq> None)
     \<and> (\<forall>st. fit_loops g rnd ki X y = Some st \<longrightarrow>
          length (epochs st) = nat (n_epochs g) \<and>
          (\<forall>e<nat (n_epochs g).
             (case epochs st ! e of
                (Xe, ye, fd) \<Rightarrow>
                  length Xe = length X \<and> length ye = length X
                \<and> length fd = length X div nat (batch_size g)
                \<and> (\<forall>j<length X div nat (batch_size g).
                      fd ! j = (take (nat (batch_size g)) (drop (j * nat (batch_size g)) Xe),
                                take (nat (batch_size g)) (drop (j * nat (batch_size g)) ye))
                    \<and> length (fst (fd ! j)) = nat (batch_size g)
                    \<and> length (snd (fd ! j)) = nat (batch_size g))
                \<and> concat (map fst fd) = take (length X - length X mod nat (batch_size g)) Xe
                \<and> concat (map snd fd) = take (length X - length X mod nat (batch_size g)) ye))
        \<and> opt_steps g (concat (map (\<lambda>e. snd (snd e)) (epochs st)))
             (initialize_all_variables g ki) = Some (vars st)
        \<and> length (concat (map (\<lambda>e. snd (snd e)) (epochs st)))
             = nat (n_epochs g) * (length X div nat (batch_size g)))"
proof (intro conjI allI impI)
  assume "(\<forall>loss v. optimizer g loss v \<noteq> None) \<and> feed_ok g X y"
  then have "\<exists>st. fit_loops g rnd ki X y = Some st"
    using fit_loops_total [of g X y rnd ki] assms by simp
  then show "fit_loops g rnd ki X y \<noteq> None" by auto
next
  fix st assume st: "fit_loops g rnd ki X y = Some st"
  note t = fit_loops_epochs [OF assms st]
  from t show n: "length (epochs st) = nat (n_epochs g)" by (rule conjunct1)
  show "opt_steps g (concat (map (\<lambda>e. snd (snd e)) (epochs st)))
             (initialize_all_variables g ki) = Some (vars st)"
    by (rule fit_loops_steps [OF st])
  have "length (snd (snd x)) = length X div nat (batch_size g)" if "x \<in> set (epochs st)" for x
  proof -
    from that n obtain e where e: "e < nat (n_epochs g)" "x = epochs st ! e"
      by (auto simp: in_set_conv_nth)
    obtain Xe ye fd where x: "epochs st ! e = (Xe, ye, fd)" by (cases "epochs st ! e") auto
    from t [THEN conjunct2, rule_format, OF e(1)] show ?thesis
      unfolding e(2) x prod.case by simp
  qed
  then have "length (concat (map (\<lambda>e. snd (snd e)) (epochs st)))
      = length (epochs st) * (length X div nat (batch_size g))"
    by (rule length_concat_const)
  then show "length (concat (map (\<lambda>e. snd (snd e)) (epochs st)))
             = nat (n_epochs g) * (length X div nat (batch_size g))"
    by (simp only: n)
next
  fix st e assume st: "fit_loops g rnd ki X y = Some st" and e: "e < nat (n_epochs g)"
  note t = fit_loops_epochs [OF assms st]
  show "case epochs st ! e of
                (Xe, ye, fd) \<Rightarrow>
                  length Xe = length X \<and> length ye = length X
                \<and> length fd = length X div nat (batch_size g)
                \<and> (\<forall>j<length X div nat (batch_size g).
                      fd ! j = (take (nat (batch_size g)) (drop (j * nat (batch_size g)) Xe),
                                take (nat (batch_size g)) (drop (j * nat (batch_size g)) ye))
                    \<and> length (fst (fd ! j)) = nat (batch_size g)
                    \<and> length (snd (fd ! j)) = nat (batch_size g))
                \<and> concat (map fst fd) = take (length X - length X mod nat (batch_size g)) Xe
                \<and> concat (map snd fd) = take (length X - length X mod nat (batch_size g)) ye"
    by (rule t [THEN conjunct2, rule_format, OF e])
qed

theorem epochs_and_minibatches_witness:
  "\<exists>st. fit_loops ex_gp3 ex_rot ex_init [[1], [2], [3]] [[10], [20], [30]] = Some st
      \<and> length (epochs st) = 2
      \<and> (case epochs st ! 1 of (Xe, ye, fd) \<Rightarrow>
            length fd = 1 \<and> length (fst (fd ! 0)) = 2 \<and> concat (map fst fd) = take 2 Xe)
      \<and> opt_steps ex_gp3 (concat (map (\<lambda>e. snd (snd e)) (epochs st)))
           (initialize_all_variables ex_gp3 ex_init) = Some (vars st)
      \<and> length (concat (map (\<lambda>e. snd (snd e)) (epochs st))) = 2
      \<and> vars st = \<lparr>length_scales = [2301], amp = 1, noise = 1\<rparr>"
proof -
  let ?X = "[[1], [2], [3::real]]"
  let ?y = "[[10], [20], [30::real]]"
  obtain st where st: "fit_loops ex_gp3 ex_rot ex_init ?X ?y = Some st"
    and vs: "vars st = \<lparr>length_scales = [2301], amp = 1, noise = 1\<rparr>"
    using ex3_fit_loops by simp
  have b: "0 < batch_size ex_gp3" by (simp add: ex_gp3_def GaussianProcess_def)
  have p: "\<forall>i<nat (n_epochs ex_gp3). mset (ex_rot i) = mset [0..<length ?X]"
    using perm_example by (simp add: ex_rot_def)
  have l: "length ?y = length ?X" by simp
  have a: "nat (n_epochs ex_gp3) = 2" "nat (batch_size ex_gp3) = 2"
    by (simp_all add: ex_gp3_def GaussianProcess_def)
  have a': "length ?X div 2 = 1" "length ?X - length ?X mod 2 = 2" "(2::nat) * 1 = 2" by simp_all
  note t = epochs_and_minibatches [OF b p l, of ex_init]
  note c = t [THEN conjunct2, rule_format, OF st, unfolded a, unfolded a']
  obtain Xe ye fd where e1: "epochs st ! 1 = (Xe, ye, fd)" by (cases "epochs st ! 1") auto
  have "(1::nat) < 2" by simp
  from c [THEN conjunct2, THEN conjunct1, rule_format, OF this]
  have d: "length fd = 1 \<and> length (fst (fd ! 0)) = 2 \<and> concat (map fst fd) = take 2 Xe"
    unfolding e1 prod.case by simp
  have d': "case epochs st ! 1 of (Xe, ye, fd) \<Rightarrow>
            length fd = 1 \<and> length (fst (fd ! 0)) = 2 \<and> concat (map fst fd) = take 2 Xe"
    unfolding e1 prod.case by (rule d)
  have n: "length (epochs st) = 2" by (rule c [THEN conjunct1])
  have o: "opt_steps ex_gp3 (concat (map (\<lambda>e. snd (snd e)) (epochs st)))
           (initialize_all_variables ex_gp3 ex_init) = Some (vars st)"
    by (rule c [THEN conjunct2, THEN conjunct2, THEN conjunct1])
  have m: "length (concat (map (\<lambda>e. snd (snd e)) (epochs st))) = 2"
    by (rule c [THEN conjunct2, THEN conjunct2, THEN conjunct2])
  show ?thesis by (rule exI [of _ st], intro conjI) (rule st n d' o m vs)+
qed

section \<open>The joint shuffle (claim C5)\<close>



section \<open>The state cached by \<open>fit\<close> (claim C6)\<close>

text \<open>
  Claim C6 as stated says that \<open>fit\<close> caches a copy of the arguments \<open>X\<close> and \<open>y\<close>. The
  arrays it caches are the locals \<open>X\<close> and \<open>y\<close> after the last epoch's shuffle: here the
  two rows are swapped.
\<close>

theorem fitted_arrays_counterexample:
  "fit ex_gp ex_swap ex_init [[1], [2]] [[10], [20]] = Some ex_fitted
   \<and> Xf ex_fitted = Some [[2], [1]] \<and> yf ex_fitted = Some [[20], [10]]
   \<and> Xf ex_fitted \<noteq> Some [[1], [2]] \<and> yf ex_fitted \<noteq> Some [[10], [20]]"
  using ex_fit by (simp add: ex_fitted_def)

text \<open>
  Claim C6, amended. After the last epoch a returning \<open>fit\<close> caches the full training set,
  all \<open>N\<close> rows of \<open>X\<close> and of \<open>y\<close>, in the row order left by the last shuffle (a joint
  permutation of the rows of the arguments), and the inverse of \<open>K\<close> evaluated over these
  \<open>N\<close> rows under the trained variables, not over a minibatch. A later call of \<open>fit\<close>
  replaces these values whatever they were: its result does not depend on them. \<open>predict\<close>
  reads nothing of the object but the kernel, the session's variables and these three
  cached values.
\<close>

theorem fitted_state:
  assumes "\<forall>i<nat (n_epochs g). mset (rnd i) = mset [0..<length X]"
    and "length y = length X"
    and "fit g rnd ki X y = Some g'"
  shows "\<exists>v Xs ys K Ki.
       sess g' = Some v \<and> Xf g' = Some Xs \<and> yf g' = Some ys \<and> K_invf g' = Some Ki
     \<and> Xs = shuffled rnd (xrange (n_epochs g)) X \<and> ys = shuffled rnd (xrange (n_epochs g)) y
     \<and> has_shape (length X) (n_dim g) Xs \<and> has_shape (length X) 1 ys
     \<and> mset (zip Xs ys) = mset (zip X y)
     \<and> gp_K g' v Xs = Some K \<and> tf_matrix_inverse K = Some Ki
     \<and> has_shape (length X) (length X) K \<and> has_shape (length X) (length X) Ki
     \<and> (0 < length X \<longrightarrow> tf_matmul K Ki = Some (tf_diag (tf_ones (length X))))
     \<and> (\<forall>s k x y0. fit (g\<lparr>sess := s, K_invf := k, Xf := x, yf := y0\<rparr>) rnd ki X y = Some g')
     \<and> (\<forall>h Xq. kernel h = kernel g' \<and> sess h = sess g' \<and> K_invf h = K_invf g'
                \<and> Xf h = Xf g' \<and> yf h = yf g' \<longrightarrow> predict h Xq = predict g' Xq)"
proof -
  from fit_fields [OF assms(3)] obtain st Ki where
    st: "fit_loops g rnd ki X y = Some st" and
    ri: "run_K_inv g (vars st) (cur_X st) (cur_y st) = Some Ki" and
    g': "g' = g\<lparr>sess := Some (vars st), K_invf := Some Ki, Xf := Some (cur_X st), yf := Some (cur_y st)\<rparr>"
    by blast
  define Xs where "Xs = shuffled rnd (xrange (n_epochs g)) X"
  define ys where "ys = shuffled rnd (xrange (n_epochs g)) y"
  have cur: "cur_X st = Xs" "cur_y st = ys"
    unfolding Xs_def ys_def by (rule fit_loops_log [OF st])+
  have "length (shuffled rnd (xrange (int (nat (n_epochs g)))) X) = length X
     \<and> length (shuffled rnd (xrange (int (nat (n_epochs g)))) y) = length X
     \<and> mset (zip (shuffled rnd (xrange (int (nat (n_epochs g)))) X)
                 (shuffled rnd (xrange (int (nat (n_epochs g)))) y)) = mset (zip X y)"
    by (rule shuffled_perm [OF assms(1,2)]) simp
  then have sp: "length Xs = length X" "length ys = length X" "mset (zip Xs ys) = mset (zip X y)"
    unfolding Xs_def ys_def xrange_nat by blast+
  from ri have fo: "feed_ok g Xs ys" and ki: "gp_K_inv g (vars st) Xs = Some Ki"
    by (auto simp: run_K_inv_def cur split: if_splits)
  have shp: "has_shape (length X) (n_dim g) Xs" "has_shape (length X) 1 ys"
    using fo sp by (simp_all add: feed_ok_def has_shape_def)
  from ki obtain K where K: "gp_K g (vars st) Xs = Some K" and inv: "tf_matrix_inverse K = Some Ki"
    by (auto simp: gp_K_inv_def split: bind_splits)
  have K': "gp_K g' (vars st) Xs = Some K" using K by (simp add: g' gp_K_def)
  have lK: "length K = length X" using K sp by (auto simp: gp_K_value)
  have sK: "has_shape (length X) (length X) K" "has_shape (length X) (length X) Ki"
    using tf_matrix_inverse_Some(1,3) [OF inv] by (simp_all add: lK is_square_shape)
  have id: "0 < length X \<longrightarrow> tf_matmul K Ki = Some (tf_diag (tf_ones (length X)))"
    using inverse_matmul [OF inv] by (simp add: lK)
  have upd: "\<forall>s k x y0. fit (g\<lparr>sess := s, K_invf := k, Xf := x, yf := y0\<rparr>) rnd ki X y = Some g'"
    using fit_upd [OF assms(3)] by blast
  have rd: "\<forall>h Xq. kernel h = kernel g' \<and> sess h = sess g' \<and> K_invf h = K_invf g'
                \<and> Xf h = Xf g' \<and> yf h = yf g' \<longrightarrow> predict h Xq = predict g' Xq"
    using predict_reads by blast
  have fields: "sess g' = Some (vars st)" "Xf g' = Some Xs" "yf g' = Some ys" "K_invf g' = Some Ki"
    by (simp_all add: g' cur)
  show ?thesis
    apply (rule exI [of _ "vars st"], rule exI [of _ Xs], rule exI [of _ ys],
           rule exI [of _ K], rule exI [of _ Ki])
    using fields shp sp(3) K' inv sK id upd rd unfolding Xs_def [symmetric] ys_def [symmetric]
    by blast
qed

theorem fitted_state_witness:
  "fit ex_gp ex_swap ex_init [[1], [2]] [[10], [20]] = Some ex_fitted
   \<and> Xf ex_fitted = Some (shuffled ex_swap (xrange 1) [[1], [2]])
   \<and> gp_K ex_fitted ex_vars [[2], [1]] = Some [[2, 1], [1, 2]]
   \<and> tf_matrix_inverse [[2, 1], [1, 2]] = K_invf ex_fitted
   \<and> fit ex_fitted ex_swap ex_init [[1], [2]] [[10], [20]] = Some ex_fitted"
proof -
  have p: "\<forall>i<nat (n_epochs ex_gp). mset (ex_swap i) = mset [0..<length [[1], [2::real]]]"
    by (simp add: ex_swap_def ex_gp_def GaussianProcess_def)
  have l: "length [[10], [20::real]] = length [[1], [2::real]]" by simp
  from fitted_state [OF p l ex_fit] obtain v Xs K Ki where
    a: "sess ex_fitted = Some v" "Xf ex_fitted = Some Xs" "K_invf ex_fitted = Some Ki"
       "Xs = shuffled ex_swap (xrange (n_epochs ex_gp)) [[1], [2]]"
       "gp_K ex_fitted v Xs = Some K" "tf_matrix_inverse K = Some Ki" and
    u: "\<forall>s k x y0. fit (ex_gp\<lparr>sess := s, K_invf := k, Xf := x, yf := y0\<rparr>) ex_swap ex_init
           [[1], [2]] [[10], [20]] = Some ex_fitted"
    by blast
  have ne: "n_epochs ex_gp = 1" by (simp add: ex_gp_def GaussianProcess_def)
  from a(1) have v: "v = ex_vars" by (simp add: ex_fitted_def)
  from a(2) have Xs: "Xs = [[2], [1]]" by (simp add: ex_fitted_def)
  have "gp_K ex_fitted ex_vars [[2], [1]] = Some [[2, 1], [1, 2]]"
    by (simp add: ex_fitted_def ex_gp_def ex_vars_def ex_kernel_def gpdefs ops eval_nat_numeral)
  with a(5) have K: "K = [[2, 1], [1, 2]]" by (simp add: v Xs)
  from u have "fit ex_fitted ex_swap ex_init [[1], [2]] [[10], [20]] = Some ex_fitted"
    unfolding ex_fitted_def by blast
  with a ex_fit show ?thesis by (simp add: K v Xs ne)
qed

section \<open>The trainable parameter set (claim C7)\<close>

text \<open>
  Claim C7. On every object built by the constructor, before or after any calls of \<open>fit\<close>,
  the list handed to the optimizer holds the kernel's length scales, and the noise exactly
  when \<open>train_noise\<close> is set; the amplitude is not in it. Every returning call of \<open>fit\<close>
  leaves the amplitude at the value its initialiser gave it at the start of that call:
  no training step changes it.
\<close>

theorem trainable_parameters:
  assumes "fit_seq (GaussianProcess nd k ne bs nz tn opt vb) calls = Some g"
  shows "var_list g = LengthScales # (if tn then [Noise] else [])
     \<and> Amp \<notin> set (var_list g)
     \<and> (\<forall>rnd ki X y g'. fit g rnd ki X y = Some g' \<longrightarrow>
           (\<exists>v. sess g' = Some v \<and> amp v = init_amp ki))"
proof -
  have vl: "var_list g = LengthScales # (if tn then [Noise] else [])"
    using fit_seq_static [OF assms] by (simp add: GaussianProcess_def)
  then have na: "Amp \<notin> set (var_list g)" by simp
  with vl show ?thesis by (blast dest: fit_sess_amp)
qed

theorem trainable_parameters_witness:
  "\<exists>g g'. fit_seq (GaussianProcess 1 ex_kernel 1 1 1 True ex_optimizer 0) [] = Some g
     \<and> var_list g = [LengthScales, Noise]
     \<and> fit g (\<lambda>_. [1, 0]) ex_init [[1], [2]] [[10], [20]] = Some g'
     \<and> (\<exists>v. sess g' = Some v \<and> amp v = 1 \<and> noise v = 3)"
proof -
  let ?g = "GaussianProcess 1 ex_kernel 1 1 1 True ex_optimizer 0"
  have a: "fit_seq ?g [] = Some ?g" by simp
  note t = trainable_parameters [OF a]
  from t have vl: "var_list ?g = [LengthScales, Noise]" by simp
  obtain g' where g': "fit ?g (\<lambda>_. [1, 0]) ex_init [[1], [2]] [[10], [20]] = Some g'"
    and n: "\<exists>v. sess g' = Some v \<and> noise v = 3"
    using fit_example [of True] by simp
  from t g' obtain v where "sess g' = Some v" "amp v = init_amp ex_init" by blast
  with n have "\<exists>v. sess g' = Some v \<and> amp v = 1 \<and> noise v = 3"
    by (auto simp: ex_init_def)
  with a vl g' show ?thesis by blast
qed

section \<open>The predictive variance is not negative (claim C9)\<close>

text \<open>
  Claim C9. Over exact arithmetic, for a model whose cached inverse is the inverse of the
  training covariance matrix \<open>K\<close> over the cached inputs (so \<open>K\<close> is invertible, as every
  positive definite matrix is), with a symmetric positive semidefinite kernel whose value
  at equal arguments is \<open>amp\<^sup>2\<close>: \<open>predict\<close> returns, and for every query point \<open>i\<close> the
  variance \<open>amp\<^sup>2 - \<Sum>\<^sub>j (K\<^sub>* K\<^sup>-\<^sup>1)[i,j] \<cdot> K\<^sub>*[i,j]\<close> it returns is non-negative. The
  computation applies no clamping.
\<close>

theorem predictive_variance_nonneg:
  fixes Xq :: mat
  assumes "sess g = Some v" "Xf g = Some Xt" "K_invf g = Some Ki" "yf g = Some yt"
    and "gp_K_inv g v Xt = Some Ki"
    and "has_shape N 1 yt" "length Xt = N" "0 < N"
    and "psd_kernel (kernel g (length_scales v) (amp v))"
    and "\<forall>x. kernel g (length_scales v) (amp v) x x = amp v * amp v"
  shows "\<exists>mean var. predict g Xq = Some (mean, var) \<and> has_shape (length Xq) 1 var \<and>
     (\<forall>i<length Xq.
        var ! i ! 0 = amp v * amp v -
          (\<Sum>j<N. (\<Sum>l<N. kernel g (length_scales v) (amp v) (Xq ! i) (Xt ! l) * Ki ! l ! j)
                    * kernel g (length_scales v) (amp v) (Xq ! i) (Xt ! j))
      \<and> 0 \<le> var ! i ! 0)"
proof -
  define \<kappa> where "\<kappa> = kernel g (length_scales v) (amp v)"
  from assms(5) obtain K where K: "gp_K g v Xt = Some K" and inv: "tf_matrix_inverse K = Some Ki"
    by (auto simp: gp_K_inv_def split: bind_splits)
  have Kv: "K = map (\<lambda>i. map (\<lambda>j. \<kappa> (Xt ! i) (Xt ! j)
       + noise v * noise v * (if i = j then 1 else 0)) [0..<N]) [0..<N]"
    using K unfolding gp_K_value \<kappa>_def assms(7) by simp
  have lK: "length K = N" by (simp add: Kv)
  have sKi: "has_shape N N Ki" using tf_matrix_inverse_Some(3) [OF inv] by (simp add: lK)
  define Ks where "Ks = covariance (kernel g) v Xq (Some Xt)"
  define A where "A = map (\<lambda>r. map (\<lambda>j. \<Sum>k<N. r ! k * Ki ! k ! j) [0..<N]) Ks"
  define var where "var = map (\<lambda>i. [amp v * amp v - (\<Sum>j<N. A ! i ! j * Ks ! i ! j)]) [0..<length Xq]"
  note pv = predict_value [OF assms(1,2,3,4) sKi assms(6,7,8), of Xq, folded Ks_def, folded A_def,
      folded var_def]
  have lKs: "length Ks = length Xq" by (simp add: Ks_def covariance_Some)
  have shv: "has_shape (length Xq) 1 var" by (simp add: var_def has_shape_def list_all_length)
  have sym: "\<And>a b. \<kappa> a b = \<kappa> b a"
    and psd: "\<And>(n::nat) (p::nat \<Rightarrow> vec) (c::nat \<Rightarrow> real). 0 \<le> (\<Sum>i<n. \<Sum>j<n. c i * c j * \<kappa> (p i) (p j))"
    using assms(9) unfolding psd_kernel_def \<kappa>_def by blast+
  have invs: "(\<Sum>m<N. (\<kappa> (Xt ! l) (Xt ! m) + noise v * noise v * (if l = m then 1 else 0)) * Ki ! m ! j)
      = (if l = j then 1 else 0)" if "l < N" "j < N" for l j
  proof -
    have "(\<Sum>m<N. (\<kappa> (Xt ! l) (Xt ! m) + noise v * noise v * (if l = m then 1 else 0)) * Ki ! m ! j)
        = (\<Sum>m<N. K ! l ! m * Ki ! m ! j)"
      by (rule sum.cong) (simp_all add: Kv that)
    then show ?thesis using inverse_right [OF inv, of l j] that by (simp add: lK)
  qed
  have row: "var ! i ! 0 = amp v * amp v -
          (\<Sum>j<N. (\<Sum>l<N. \<kappa> (Xq ! i) (Xt ! l) * Ki ! l ! j) * \<kappa> (Xq ! i) (Xt ! j))
      \<and> 0 \<le> var ! i ! 0" if i: "i < length Xq" for i
  proof -
    have ks: "Ks ! i ! j = \<kappa> (Xq ! i) (Xt ! j)" if "j < N" for j
      using i that assms(7) by (simp add: Ks_def covariance_nth \<kappa>_def)
    have a: "A ! i ! j = (\<Sum>l<N. \<kappa> (Xq ! i) (Xt ! l) * Ki ! l ! j)" if "j < N" for j
    proof -
      have "A ! i ! j = (\<Sum>l<N. Ks ! i ! l * Ki ! l ! j)"
        using i that by (simp add: A_def lKs)
      also have "\<dots> = (\<Sum>l<N. \<kappa> (Xq ! i) (Xt ! l) * Ki ! l ! j)"
        by (rule sum.cong) (simp_all add: ks)
      finally show ?thesis .
    qed
    have e: "(\<Sum>j<N. A ! i ! j * Ks ! i ! j)
        = (\<Sum>j<N. (\<Sum>l<N. \<kappa> (Xq ! i) (Xt ! l) * Ki ! l ! j) * \<kappa> (Xq ! i) (Xt ! j))"
      by (rule sum.cong) (simp_all add: ks a)
    have "(\<Sum>j<N. (\<Sum>l<N. \<kappa> (Xq ! i) (Xt ! l) * Ki ! l ! j) * \<kappa> (Xq ! i) (Xt ! j))
        \<le> \<kappa> (Xq ! i) (Xq ! i)"
      by (rule schur_bound [where x = "\<lambda>l. Xt ! l" and Ki = "\<lambda>m j. Ki ! m ! j"
            and s = "noise v * noise v", OF sym psd invs]) simp_all
    also have "\<kappa> (Xq ! i) (Xq ! i) = amp v * amp v" using assms(10) by (simp add: \<kappa>_def)
    finally have "0 \<le> amp v * amp v -
        (\<Sum>j<N. (\<Sum>l<N. \<kappa> (Xq ! i) (Xt ! l) * Ki ! l ! j) * \<kappa> (Xq ! i) (Xt ! j))"
      by simp
    moreover have "var ! i ! 0 = amp v * amp v - (\<Sum>j<N. A ! i ! j * Ks ! i ! j)"
      using i by (simp add: var_def)
    ultimately show ?thesis by (simp add: e)
  qed
  have rows: "\<forall>i<length Xq.
        var ! i ! 0 = amp v * amp v -
          (\<Sum>j<N. (\<Sum>l<N. kernel g (length_scales v) (amp v) (Xq ! i) (Xt ! l) * Ki ! l ! j)
                    * kernel g (length_scales v) (amp v) (Xq ! i) (Xt ! j))
      \<and> 0 \<le> var ! i ! 0"
    unfolding \<kappa>_def [symmetric] by (intro allI impI row)
  show ?thesis
    by (rule exI [of _ "map (\<lambda>r. [\<Sum>k<N. r ! k * yt ! k ! 0]) A"], rule exI [of _ var], intro conjI)
       (rule pv(2) shv rows)+
qed

theorem predictive_variance_nonneg_witness:
  "\<exists>mean var. predict ex_fitted [[5], [7]] = Some (mean, var) \<and> var ! 1 ! 0 = 1/3 \<and> 0 \<le> var ! 1 ! 0"
proof -
  have f: "sess ex_fitted = Some ex_vars" "Xf ex_fitted = Some [[2], [1]]"
    "K_invf ex_fitted = Some [[2/3, -1/3], [-1/3, 2/3]]" "yf ex_fitted = Some [[20], [10]]"
    by (simp_all add: ex_fitted_def)
  have s: "has_shape 2 1 [[20], [10::real]]" "length [[2], [1::real]] = 2" "0 < (2::nat)"
    by (simp_all add: has_shape_def)
  have k: "kernel ex_fitted = ex_kernel" by (simp add: ex_fitted_def ex_gp_def GaussianProcess_def)
  have p: "psd_kernel (kernel ex_fitted (length_scales ex_vars) (amp ex_vars))"
    unfolding k by (rule ex_kernel_psd)
  have a: "\<forall>x. kernel ex_fitted (length_scales ex_vars) (amp ex_vars) x x = amp ex_vars * amp ex_vars"
    by (simp add: k ex_kernel_def)
  from predictive_variance_nonneg [OF f ex_K_inv s p a, of "[[5], [7]]"] obtain mean var where
    pr: "predict ex_fitted [[5], [7]] = Some (mean, var)" and
    nn: "\<forall>i<length [[5], [7::real]]. var ! i ! 0 = amp ex_vars * amp ex_vars -
          (\<Sum>j<2. (\<Sum>l<2. kernel ex_fitted (length_scales ex_vars) (amp ex_vars) ([[5], [7]] ! i) ([[2], [1]] ! l) * [[2/3, -1/3], [-1/3, 2/3]] ! l ! j)
                    * kernel ex_fitted (length_scales ex_vars) (amp ex_vars) ([[5], [7]] ! i) ([[2], [1]] ! j))
      \<and> 0 \<le> var ! i ! 0"
    by blast
  have "(1::nat) < length [[5], [7::real]]" by simp
  from nn [rule_format, OF this] have z: "0 \<le> var ! 1 ! 0" by blast
  from pr have "var = [[1/3], [1/3]]" by (simp add: ex_predict)
  then have "var ! 1 ! 0 = 1/3" by simp
  with pr z show ?thesis by blast
qed

section \<open>The noise of a model built without \<open>train_noise\<close> (claim C10)\<close>

text \<open>
  Claim C10. For a model built with \<open>train_noise = False\<close> and any sequence of returning
  calls of \<open>fit\<close>: the initial value of the noise variable stays the constructor's argument,
  the variable is not in the optimizer's list, and after at least one call the variable
  holds exactly that value (every call re-initialises it and no training step assigns
  it). Before the first call the session holds no value for any variable.
\<close>

theorem noise_kept_when_not_trained:
  assumes "fit_seq (GaussianProcess nd k ne bs nz False opt vb) calls = Some g"
  shows "noise_init g = nz \<and> Noise \<notin> set (var_list g)
     \<and> (calls \<noteq> [] \<longrightarrow> (\<exists>v. sess g = Some v \<and> noise v = nz))
     \<and> (calls = [] \<longrightarrow> sess g = None)"
proof -
  have st: "var_list g = [LengthScales]" "noise_init g = nz"
    using fit_seq_static [OF assms] by (simp_all add: GaussianProcess_def)
  have "\<exists>v. sess g = Some v \<and> noise v = nz" if "calls \<noteq> []"
    using fit_seq_noise [OF assms _ that] by (simp add: GaussianProcess_def)
  moreover have "sess g = None" if "calls = []"
    using assms that by (auto simp: GaussianProcess_def)
  ultimately show ?thesis using st by simp
qed

theorem noise_kept_when_not_trained_witness:
  "\<exists>g. fit_seq (GaussianProcess 1 ex_kernel 1 1 1 False ex_optimizer 0)
          [(\<lambda>_. [1, 0], ex_init, [[1], [2]], [[10], [20]])] = Some g
     \<and> (\<exists>v. sess g = Some v \<and> noise v = 1)"
proof -
  obtain g where g: "fit_seq (GaussianProcess 1 ex_kernel 1 1 1 False ex_optimizer 0)
          [(\<lambda>_. [1, 0], ex_init, [[1], [2]], [[10], [20]])] = Some g"
    using fit_example [of False] by simp
  from noise_kept_when_not_trained [OF g] have "\<exists>v. sess g = Some v \<and> noise v = 1" by simp
  with g show ?thesis by blast
qed

end
